theory Spec2Isabelle
  imports Main "HOL-Library.Sublist"
begin

section \<open>Strings and character classes\<close>

text \<open>
  A JavaScript string is a sequence of UTF-16 code units. The model uses HOL strings:
  a \<^typ>\<open>char\<close> stands for the code unit with the same number, so the model covers the
  strings whose code units are below 256 (ASCII and Latin-1). The character classes
  below are the ECMAScript ones restricted to that range.
\<close>

definition code :: "char \<Rightarrow> nat" where
  "code c = of_char c"

text \<open>\<^verbatim>\<open>\d\<close>: the ten ASCII digits.\<close>

definition is_digit :: "char \<Rightarrow> bool" where
  "is_digit c = (48 \<le> code c \<and> code c \<le> 57)"

text \<open>\<^verbatim>\<open>\s\<close>, and what \<^verbatim>\<open>trim\<close> strips: TAB, LF, VT, FF, CR, space and the
  no-break space U+00A0 (the other white space of ECMAScript lies above 255).\<close>

definition is_space :: "char \<Rightarrow> bool" where
  "is_space c = (code c \<in> {9, 10, 11, 12, 13, 32, 160})"

text \<open>The line terminators, which \<^verbatim>\<open>.\<close> does not match: LF and CR (U+2028 and U+2029
  lie above 255).\<close>

definition is_line_terminator :: "char \<Rightarrow> bool" where
  "is_line_terminator c = (code c = 10 \<or> code c = 13)"

definition dot :: "char \<Rightarrow> bool" where
  "dot c = (\<not> is_line_terminator c)"

text \<open>\<^verbatim>\<open>[A-Za-z0-9]\<close>.\<close>

definition is_alnum :: "char \<Rightarrow> bool" where
  "is_alnum c = ((65 \<le> code c \<and> code c \<le> 90) \<or> (97 \<le> code c \<and> code c \<le> 122) \<or> is_digit c)"

text \<open>\<^verbatim>\<open>\w\<close>, the word characters that decide \<^verbatim>\<open>\b\<close>: \<^verbatim>\<open>[A-Za-z0-9_]\<close>.\<close>

definition is_word :: "char \<Rightarrow> bool" where
  "is_word c = (is_alnum c \<or> c = CHR ''_'')"

text \<open>\<^verbatim>\<open>toLowerCase\<close> on one code unit below 256: A-Z and the Latin-1 capitals
  U+00C0..U+00DE (without the multiplication sign U+00D7) move up by 32.\<close>

definition lower_char :: "char \<Rightarrow> char" where
  "lower_char c =
     (if (65 \<le> code c \<and> code c \<le> 90) \<or> (192 \<le> code c \<and> code c \<le> 222 \<and> code c \<noteq> 215)
      then char_of (code c + 32) else c)"

definition toLowerCase :: "string \<Rightarrow> string" where
  "toLowerCase s = map lower_char s"

definition trim :: "string \<Rightarrow> string" where
  "trim s = rev (dropWhile is_space (rev (dropWhile is_space s)))"

text \<open>\<^verbatim>\<open>xs.join(sep)\<close>.\<close>

fun join :: "string \<Rightarrow> string list \<Rightarrow> string" where
  "join sep [] = []"
| "join sep [x] = x"
| "join sep (x # y # ys) = x @ sep @ join sep (y # ys)"

text \<open>\<^verbatim>\<open>s.includes(t)\<close>: \<open>t\<close> occurs in \<open>s\<close> as a contiguous block.\<close>

fun js_includes :: "string \<Rightarrow> string \<Rightarrow> bool" where
  "js_includes [] t = (t = [])"
| "js_includes (c # cs) t = (prefix t (c # cs) \<or> js_includes cs t)"

text \<open>The decimal digits of a number, as a template literal writes a non-negative
  integer (exact for the safe integers, below \<open>2 ^ 53\<close>).\<close>

definition digit_char :: "nat \<Rightarrow> char" where
  "digit_char d = char_of (48 + d)"

function show_nat :: "nat \<Rightarrow> string" where
  "show_nat n = (if n < 10 then [digit_char n] else show_nat (n div 10) @ [digit_char (n mod 10)])"
  by pat_completeness auto
termination
  by (relation "measure id") auto

section \<open>Regular expressions\<close>

text \<open>
  The regular expressions of the source are values of the type \<open>rx\<close>, and \<^verbatim>\<open>test\<close> and
  \<^verbatim>\<open>replace\<close> are functions on them. A position in a string is the character before it
  (none at the start of the string) and the rest of the string from it on: no pattern of
  the source looks further back than one character.
\<close>

type_synonym pos = "char option \<times> string"

text \<open>
  \<open>Class P\<close> is one character of a class; \<open>Rep lo hi P\<close> is the class repeated at least
  \<open>lo\<close> and, with \<open>hi = Some h\<close>, at most \<open>h\<close> times (\<^verbatim>\<open>+\<close> is \<open>Rep 1 None\<close>, \<^verbatim>\<open>*\<close> is
  \<open>Rep 0 None\<close>, \<^verbatim>\<open>?\<close> is \<open>Rep 0 (Some 1)\<close>, \<^verbatim>\<open>{n}\<close> is \<open>Rep n (Some n)\<close>, \<^verbatim>\<open>{n,}\<close> is
  \<open>Rep n None\<close>); \<open>Ahead r\<close> is \<^verbatim>\<open>(?=r)\<close>; \<open>Behind P\<close> is \<^verbatim>\<open>(?<=c)\<close> for one character
  \<open>c\<close> of the class; \<open>Bol\<close>, \<open>Eol\<close> and \<open>WordB\<close> are \<^verbatim>\<open>^\<close>, \<^verbatim>\<open>$\<close> (without the \<^verbatim>\<open>m\<close> flag) and
  \<^verbatim>\<open>\b\<close>.
\<close>

datatype rx =
    Eps
  | Class "char \<Rightarrow> bool"
  | Rep nat "nat option" "char \<Rightarrow> bool"
  | Seq rx rx
  | Ahead rx
  | Behind "char \<Rightarrow> bool"
  | Bol
  | Eol
  | WordB

text \<open>
  The positions at which a repetition that starts at a position can end, in the order in
  which a backtracking matcher tries them: the repetition is greedy, it takes one more
  character when it may, and stops here only after that has failed.
\<close>

fun rep :: "nat \<Rightarrow> nat option \<Rightarrow> (char \<Rightarrow> bool) \<Rightarrow> pos \<Rightarrow> pos list" where
  "rep lo hi P (p, []) = (if lo = 0 then [(p, [])] else [])"
| "rep lo hi P (p, c # cs) =
     (if P c \<and> hi \<noteq> Some 0 then rep (lo - 1) (map_option (\<lambda>h. h - 1) hi) P (Some c, cs) else [])
       @ (if lo = 0 then [(p, c # cs)] else [])"

definition word_before :: "char option \<Rightarrow> bool" where
  "word_before p = (case p of None \<Rightarrow> False | Some c \<Rightarrow> is_word c)"

definition word_after :: "string \<Rightarrow> bool" where
  "word_after rest = (case rest of [] \<Rightarrow> False | c # _ \<Rightarrow> is_word c)"

text \<open>The positions at which a match of \<open>r\<close> that starts at a position can end, in the
  order of backtracking.\<close>

fun ends :: "rx \<Rightarrow> pos \<Rightarrow> pos list" where
  "ends Eps pos = [pos]"
| "ends (Class P) (p, rest) =
     (case rest of [] \<Rightarrow> [] | c # cs \<Rightarrow> if P c then [(Some c, cs)] else [])"
| "ends (Rep lo hi P) pos = rep lo hi P pos"
| "ends (Seq a b) pos = concat (map (ends b) (ends a pos))"
| "ends (Ahead r) pos = (if ends r pos = [] then [] else [pos])"
| "ends (Behind P) (p, rest) =
     (case p of None \<Rightarrow> [] | Some c \<Rightarrow> if P c then [(p, rest)] else [])"
| "ends Bol (p, rest) = (if p = None then [(p, rest)] else [])"
| "ends Eol (p, rest) = (if rest = [] then [(p, rest)] else [])"
| "ends WordB (p, rest) = (if word_before p \<noteq> word_after rest then [(p, rest)] else [])"

text \<open>\<open>f\<close> holds at the position or at a later one.\<close>

fun any_pos :: "(pos \<Rightarrow> bool) \<Rightarrow> pos \<Rightarrow> bool" where
  "any_pos f (p, []) = f (p, [])"
| "any_pos f (p, c # cs) = (f (p, c # cs) \<or> any_pos f (Some c, cs))"

text \<open>\<^verbatim>\<open>r.test(s)\<close>: the pattern matches at some position of \<open>s\<close>.\<close>

definition rx_test :: "rx \<Rightarrow> string \<Rightarrow> bool" where
  "rx_test r s = any_pos (\<lambda>pos. ends r pos \<noteq> []) (None, s)"

text \<open>
  \<^verbatim>\<open>s.replace(r, sub)\<close> with the \<^verbatim>\<open>g\<close> flag, from a position on: where the pattern matches,
  its first match in the order of backtracking is replaced and the search goes on behind
  it (one character further on when the match is empty); where it does not match, the
  character is kept.
\<close>

function replace_from :: "rx \<Rightarrow> string \<Rightarrow> pos \<Rightarrow> string" where
  "replace_from r sub (p, []) = (if ends r (p, []) = [] then [] else sub)"
| "replace_from r sub (p, c # cs) =
     (case ends r (p, c # cs) of
        [] \<Rightarrow> c # replace_from r sub (Some c, cs)
      | (p', rest') # _ \<Rightarrow>
          if length rest' \<le> length cs then sub @ replace_from r sub (p', rest')
          else sub @ c # replace_from r sub (Some c, cs))"
  by pat_completeness auto
termination
  by (relation "measure (\<lambda>(r, sub, p, rest). length rest)") auto

definition rx_replace_all :: "rx \<Rightarrow> string \<Rightarrow> string \<Rightarrow> string" where
  "rx_replace_all r sub s = replace_from r sub (None, s)"

text \<open>\<^verbatim>\<open>s.replace(r, sub)\<close> without the \<^verbatim>\<open>g\<close> flag: the first match only.\<close>

fun replace_first_from :: "rx \<Rightarrow> string \<Rightarrow> pos \<Rightarrow> string" where
  "replace_first_from r sub (p, []) = (if ends r (p, []) = [] then [] else sub)"
| "replace_first_from r sub (p, c # cs) =
     (case ends r (p, c # cs) of
        [] \<Rightarrow> c # replace_first_from r sub (Some c, cs)
      | (p', rest') # _ \<Rightarrow> sub @ rest')"

definition rx_replace :: "rx \<Rightarrow> string \<Rightarrow> string \<Rightarrow> string" where
  "rx_replace r sub s = replace_first_from r sub (None, s)"

text \<open>A pattern written as the sequence of its parts.\<close>

definition seqs :: "rx list \<Rightarrow> rx" where
  "seqs rs = foldr Seq rs Eps"

text \<open>The class of one character; and the class of a lower-case ASCII letter under the
  \<^verbatim>\<open>i\<close> flag (without \<^verbatim>\<open>u\<close>): the letter and its ASCII capital, 32 below it.\<close>

definition is_char :: "char \<Rightarrow> char \<Rightarrow> bool" where
  "is_char a c = (c = a)"

definition ci_char :: "char \<Rightarrow> char \<Rightarrow> bool" where
  "ci_char a c = (c = a \<or> code c + 32 = code a)"

section \<open>Row limiter\<close>

text \<open>\<^verbatim>\<open>/limit\s+\d+/i\<close>.\<close>

definition limit_rx :: rx where
  "limit_rx =
     seqs (map (\<lambda>a. Class (ci_char a)) ''limit'' @ [Rep 1 None is_space, Rep 1 None is_digit])"

definition wrapWithLimit :: "string \<Rightarrow> nat \<Rightarrow> string" where
  "wrapWithLimit sql limit =
     (if rx_test limit_rx sql then sql
      else ''SELECT * FROM ('' @ sql @ '') AS safe_sub LIMIT '' @ show_nat limit)"

section \<open>PII masking\<close>

subsection \<open>Shape signals\<close>

text \<open>\<^verbatim>\<open>[^@\s]\<close>.\<close>

definition is_atext :: "char \<Rightarrow> bool" where
  "is_atext c = (c \<noteq> CHR ''@'' \<and> \<not> is_space c)"

text \<open>\<^verbatim>\<open>/^[^@\s]+@[^@\s]+\.[^@\s]+$/\<close>.\<close>

definition email_rx :: rx where
  "email_rx =
     seqs [Bol, Rep 1 None is_atext, Class (is_char (CHR ''@'')), Rep 1 None is_atext,
           Class (is_char (CHR ''.'')), Rep 1 None is_atext, Eol]"

definition looksLikeEmail :: "string \<Rightarrow> bool" where
  "looksLikeEmail v = rx_test email_rx v"

text \<open>\<^verbatim>\<open>[\d\-\s().]\<close>.\<close>

definition is_phone_char :: "char \<Rightarrow> bool" where
  "is_phone_char c = (is_digit c \<or> c = CHR ''-'' \<or> is_space c \<or> c = CHR ''('' \<or> c = CHR '')'' \<or> c = CHR ''.'')"

text \<open>\<^verbatim>\<open>/(\+?\d[\d\-\s().]{6,})/\<close>; the group captures, and \<^verbatim>\<open>test\<close> does not read it.\<close>

definition phone_rx :: rx where
  "phone_rx = seqs [Rep 0 (Some 1) (is_char (CHR ''+'')), Class is_digit, Rep 6 None is_phone_char]"

definition looksLikePhone :: "string \<Rightarrow> bool" where
  "looksLikePhone v = rx_test phone_rx v"

text \<open>\<^verbatim>\<open>/^\d{3}-\d{2}-\d{4}$/\<close>.\<close>

definition ssn_rx :: rx where
  "ssn_rx =
     seqs [Bol, Rep 3 (Some 3) is_digit, Class (is_char (CHR ''-'')), Rep 2 (Some 2) is_digit,
           Class (is_char (CHR ''-'')), Rep 4 (Some 4) is_digit, Eol]"

definition looksLikeSSN :: "string \<Rightarrow> bool" where
  "looksLikeSSN v = rx_test ssn_rx v"

subsection \<open>Name signal\<close>

definition shouldMaskByColumn :: "string \<Rightarrow> bool" where
  "shouldMaskByColumn col =
     (let c = toLowerCase col in
      js_includes c ''email'' \<or> js_includes c ''phone'' \<or> js_includes c ''mobile'' \<or>
      (js_includes c ''contact'' \<and> js_includes c ''number'') \<or>
      js_includes c ''ssn'' \<or> (js_includes c ''social'' \<and> js_includes c ''security''))"

subsection \<open>Maskers\<close>

text \<open>\<^verbatim>\<open>s.split(sep)\<close> for a separator of one character; \<open>acc\<close> is the piece being read.\<close>

fun split_char :: "char \<Rightarrow> string \<Rightarrow> string \<Rightarrow> string list" where
  "split_char sep acc [] = [acc]"
| "split_char sep acc (c # cs) =
     (if c = sep then acc # split_char sep [] cs else split_char sep (acc @ [c]) cs)"

definition js_split :: "char \<Rightarrow> string \<Rightarrow> string list" where
  "js_split sep s = split_char sep [] s"

text \<open>\<^verbatim>\<open>"*".repeat(n)\<close>.\<close>

definition stars :: "nat \<Rightarrow> string" where
  "stars n = replicate n (CHR ''*'')"

text \<open>\<^verbatim>\<open>/.(?=.{2})/g\<close>.\<close>

definition but_last2_rx :: rx where
  "but_last2_rx = seqs [Class dot, Ahead (Rep 2 (Some 2) dot)]"

text \<open>\<^verbatim>\<open>/(?<=.).(?=.*\.)/g\<close>.\<close>

definition domain_rx :: rx where
  "domain_rx =
     seqs [Behind dot, Class dot, Ahead (seqs [Rep 0 None dot, Class (is_char (CHR ''.''))])]"

text \<open>\<^verbatim>\<open>u.length <= 2 ? "*".repeat(u.length) : u[0] + "*".repeat(u.length - 2) + u[u.length - 1]\<close>.\<close>

definition mask_user :: "string \<Rightarrow> string" where
  "mask_user u =
     (if length u \<le> 2 then stars (length u)
      else [u ! 0] @ stars (length u - 2) @ [u ! (length u - 1)])"

text \<open>
  \<^verbatim>\<open>const [u, d] = value.split("@")\<close> takes the first two pieces; \<^verbatim>\<open>!d\<close> holds when there is
  no second piece or it is empty.
\<close>

definition maskEmail :: "string \<Rightarrow> string" where
  "maskEmail value =
     (case js_split (CHR ''@'') value of
        u # d # _ \<Rightarrow>
          if d = [] then rx_replace_all but_last2_rx ''*'' value
          else mask_user u @ ''@'' @ rx_replace_all domain_rx ''*'' d
      | _ \<Rightarrow> rx_replace_all but_last2_rx ''*'' value)"

text \<open>\<^verbatim>\<open>/\d(?=\d{2}\b)/g\<close>.\<close>

definition phone_mask_rx :: rx where
  "phone_mask_rx = seqs [Class is_digit, Ahead (seqs [Rep 2 (Some 2) is_digit, WordB])]"

definition maskPhone :: "string \<Rightarrow> string" where
  "maskPhone value = rx_replace_all phone_mask_rx ''*'' value"

text \<open>\<^verbatim>\<open>/^\d{3}-\d{2}/\<close>.\<close>

definition ssn_mask_rx :: rx where
  "ssn_mask_rx =
     seqs [Bol, Rep 3 (Some 3) is_digit, Class (is_char (CHR ''-'')), Rep 2 (Some 2) is_digit]"

definition maskSSN :: "string \<Rightarrow> string" where
  "maskSSN value = rx_replace ssn_mask_rx ''***-**'' value"

text \<open>The generic fallback, \<^verbatim>\<open>v.replace(/[A-Za-z0-9]/g, "*")\<close>.\<close>

definition mask_generic :: "string \<Rightarrow> string" where
  "mask_generic v = rx_replace_all (Class is_alnum) ''*'' v"

subsection \<open>Values and rows\<close>

text \<open>
  A value of a result row: \<^verbatim>\<open>null\<close>, \<^verbatim>\<open>undefined\<close>, a string, or anything else (a number,
  a boolean, a buffer, ...), which \<^verbatim>\<open>maskValue\<close> never looks into.
\<close>

datatype 'o js_value = JNull | JUndefined | JString string | JOther 'o

definition maskValue :: "string \<Rightarrow> 'o js_value \<Rightarrow> 'o js_value" where
  "maskValue col v =
     (case v of
        JString s \<Rightarrow>
          if shouldMaskByColumn col \<or> looksLikeEmail s \<or> looksLikePhone s \<or> looksLikeSSN s
          then (if looksLikeEmail s then JString (maskEmail s)
                else if looksLikeSSN s then JString (maskSSN s)
                else if looksLikePhone s then JString (maskPhone s)
                else JString (mask_generic s))
          else v
      | _ \<Rightarrow> v)"

text \<open>
  A JavaScript object with string keys, as the list of its own properties in the order
  \<^verbatim>\<open>Object.entries\<close> gives them: the array indices first, in ascending numeric order,
  then the other keys in the order they were created.
\<close>

type_synonym 'v js_object = "(string \<times> 'v) list"

definition parse_nat :: "string \<Rightarrow> nat" where
  "parse_nat s = foldl (\<lambda>n c. 10 * n + (code c - 48)) 0 s"

text \<open>An array index is a canonical numeric string (no leading zero) below \<open>2\<^sup>3\<^sup>2 - 1\<close>.\<close>

definition array_index :: "string \<Rightarrow> nat option" where
  "array_index k =
     (if k \<noteq> [] \<and> list_all is_digit k \<and> (k = ''0'' \<or> hd k \<noteq> CHR ''0'') \<and>
         parse_nat k < 4294967295
      then Some (parse_nat k) else None)"

text \<open>A new array index \<open>i\<close> goes before the first key that is a larger index or no index.\<close>

fun insert_index :: "nat \<Rightarrow> string \<Rightarrow> 'v \<Rightarrow> 'v js_object \<Rightarrow> 'v js_object" where
  "insert_index i k v [] = [(k, v)]"
| "insert_index i k v ((k', v') # ob) =
     (case array_index k' of
        Some j \<Rightarrow> if j < i then (k', v') # insert_index i k v ob else (k, v) # (k', v') # ob
      | None \<Rightarrow> (k, v) # (k', v') # ob)"

text \<open>
  \<^verbatim>\<open>out[k] = v\<close> on an object created by \<^verbatim>\<open>{}\<close>. The key \<^verbatim>\<open>__proto__\<close> reaches the setter
  of \<^verbatim>\<open>Object.prototype\<close>, which creates no own property; an existing key keeps its place;
  a new key takes its place in the order above.
\<close>

definition obj_set :: "'v js_object \<Rightarrow> string \<Rightarrow> 'v \<Rightarrow> 'v js_object" where
  "obj_set ob k v =
     (if k = ''__proto__'' then ob
      else if k \<in> set (map fst ob) then map (\<lambda>(k', v'). if k' = k then (k', v) else (k', v')) ob
      else case array_index k of Some i \<Rightarrow> insert_index i k v ob | None \<Rightarrow> ob @ [(k, v)])"

text \<open>
  The order of own properties: an array index stands before a larger index and before
  every key that is no index; keys that are no index keep the order of their creation.
\<close>

definition key_before :: "string \<Rightarrow> string \<Rightarrow> bool" where
  "key_before k k' =
     (case array_index k of
        Some i \<Rightarrow> (case array_index k' of Some j \<Rightarrow> i < j | None \<Rightarrow> True)
      | None \<Rightarrow> array_index k' = None)"

text \<open>
  The lists that stand for an object built by assignments to \<^verbatim>\<open>{}\<close>: no key twice, no
  own \<^verbatim>\<open>__proto__\<close>, and the keys in the order of own properties.
\<close>

definition own_properties :: "'v js_object \<Rightarrow> bool" where
  "own_properties ob =
     (distinct (map fst ob) \<and> ''__proto__'' \<notin> set (map fst ob) \<and>
      sorted_wrt key_before (map fst ob))"

type_synonym 'o row = "'o js_value js_object"

text \<open>The body of the \<^verbatim>\<open>map\<close> callback: \<open>out\<close> starts empty and receives every entry of \<open>r\<close>.\<close>

definition maskRow :: "'o row \<Rightarrow> 'o row" where
  "maskRow r = fold (\<lambda>(k, v) out. obj_set out k (maskValue k v)) r []"

definition maskRows :: "'o row list \<Rightarrow> 'o row list" where
  "maskRows rows = map maskRow rows"

section \<open>Configuration\<close>

text \<open>
  The configuration read at startup. The row cap is a natural number: the specification
  takes it to be a validated positive integer, and \<^verbatim>\<open>Number(...)\<close> of any other text is
  outside the model.
\<close>

record config =
  DB_TYPE :: string
  SAFE_VIEWS :: "string list"
  MAX_ROWS :: nat

text \<open>\<^verbatim>\<open>process.env.X || dflt\<close>: an unset or empty variable gives the default.\<close>

definition env_or :: "string option \<Rightarrow> string \<Rightarrow> string" where
  "env_or x dflt = (case x of None \<Rightarrow> dflt | Some s \<Rightarrow> if s = [] then dflt else s)"

definition load_DB_TYPE :: "string option \<Rightarrow> string" where
  "load_DB_TYPE x = toLowerCase (env_or x ''sqlite'')"

definition load_SAFE_VIEWS :: "string option \<Rightarrow> string list" where
  "load_SAFE_VIEWS x =
     map toLowerCase (filter (\<lambda>s. s \<noteq> []) (map trim (js_split (CHR '','') (env_or x ''safe_users_v''))))"

definition dialectName :: "config \<Rightarrow> string" where
  "dialectName cfg = (if DB_TYPE cfg = ''postgres'' then ''Postgresql'' else ''Sqlite'')"

section \<open>Collaborators and effects\<close>

text \<open>Every \<^verbatim>\<open>throw new Error(msg)\<close>, and every error a collaborator raises, is an error
  value with its message.\<close>

datatype error = JsError string

text \<open>
  What \<^verbatim>\<open>parser.astify\<close> returns: an array of statements or one statement. Of a statement
  the code reads the \<^verbatim>\<open>type\<close> only (\<open>None\<close> when it is missing or no string).
\<close>

datatype stmt = Stmt (stmt_type: "string option")

datatype ast = AstArray "stmt list" | AstObject stmt

text \<open>
  The collaborators of one tool call, as the answers they give: the parser (by dialect
  and text), \<^verbatim>\<open>db.all\<close> of the SQLite handle (an error, or the rows, which may be
  undefined), and \<^verbatim>\<open>connect\<close>, \<^verbatim>\<open>query\<close> (the \<^verbatim>\<open>rows\<close> of its result) and \<^verbatim>\<open>end\<close> of the
  PostgreSQL client.
\<close>

record 'o env =
  astify :: "string \<Rightarrow> string \<Rightarrow> error + ast"
  tableList :: "string \<Rightarrow> string \<Rightarrow> error + string list"
  sqlite_all :: "string \<Rightarrow> error + 'o row list option"
  pg_connect :: "error option"
  pg_query :: "string \<Rightarrow> error + 'o row list option"
  pg_end :: "error option"

text \<open>The calls a tool call makes to its collaborators, in the order it makes them.\<close>

datatype event =
    Astify string
  | TableList string
  | SqliteOpen
  | SqliteAll string
  | SqliteClose
  | PgConnect
  | PgQuery string
  | PgEnd

text \<open>A computation: the calls it made, and the error it threw or the value it returned.\<close>

type_synonym 'a io = "event list \<times> (error + 'a)"

definition io_return :: "'a \<Rightarrow> 'a io" where
  "io_return x = ([], Inr x)"

definition io_throw :: "error \<Rightarrow> 'a io" where
  "io_throw e = ([], Inl e)"

definition io_call :: "event \<Rightarrow> error + 'a \<Rightarrow> 'a io" where
  "io_call ev answer = ([ev], answer)"

text \<open>Sequencing: a throw ends the computation, nothing after it runs.\<close>

definition io_bind :: "'a io \<Rightarrow> ('a \<Rightarrow> 'b io) \<Rightarrow> 'b io" where
  "io_bind m f =
     (case m of
        (t, Inl e) \<Rightarrow> (t, Inl e)
      | (t, Inr x) \<Rightarrow> (case f x of (t', r) \<Rightarrow> (t @ t', r)))"

text \<open>\<^verbatim>\<open>try { m } finally { fin }\<close>: \<open>fin\<close> runs on both exits of \<open>m\<close>; an error of \<open>fin\<close>
  replaces the outcome of \<open>m\<close>.\<close>

definition io_finally :: "'a io \<Rightarrow> unit io \<Rightarrow> 'a io" where
  "io_finally m fin =
     (case m of (t, r) \<Rightarrow>
        (case fin of (t', Inl e) \<Rightarrow> (t @ t', Inl e) | (t', Inr _) \<Rightarrow> (t @ t', r)))"

definition of_failure :: "error option \<Rightarrow> error + unit" where
  "of_failure x = (case x of None \<Rightarrow> Inr () | Some e \<Rightarrow> Inl e)"

text \<open>\<^verbatim>\<open>r || []\<close>.\<close>

definition or_empty :: "'a list option \<Rightarrow> 'a list" where
  "or_empty r = (case r of None \<Rightarrow> [] | Some xs \<Rightarrow> xs)"

definition withPgClient :: "'o env \<Rightarrow> (unit \<Rightarrow> 'a io) \<Rightarrow> 'a io" where
  "withPgClient env fn =
     io_bind (io_call PgConnect (of_failure (pg_connect env)))
       (\<lambda>_. io_finally (fn ()) (io_call PgEnd (of_failure (pg_end env))))"

section \<open>SQL safety\<close>

definition assertSelectOnly :: "'o env \<Rightarrow> config \<Rightarrow> string \<Rightarrow> unit io" where
  "assertSelectOnly env cfg sql =
     io_bind (io_call (Astify sql) (astify env (dialectName cfg) sql))
       (\<lambda>a. case a of
           AstArray _ \<Rightarrow> io_throw (JsError ''Only one statement allowed.'')
         | AstObject st \<Rightarrow>
             if map_option toLowerCase (stmt_type st) \<noteq> Some ''select''
             then io_throw (JsError ''Only SELECT queries are allowed.'')
             else io_return ())"

text \<open>\<^verbatim>\<open>s.split("::")\<close>; \<open>acc\<close> is the piece being read.\<close>

fun split_colons :: "string \<Rightarrow> string \<Rightarrow> string list" where
  "split_colons acc [] = [acc]"
| "split_colons acc [c] = [acc @ [c]]"
| "split_colons acc (c # d # cs) =
     (if c = CHR '':'' \<and> d = CHR '':'' then acc # split_colons [] cs
      else split_colons (acc @ [c]) (d # cs))"

definition nth_opt :: "'a list \<Rightarrow> nat \<Rightarrow> 'a option" where
  "nth_opt xs i = (if i < length xs then Some (xs ! i) else None)"

text \<open>\<^verbatim>\<open>a || b\<close> on strings: \<open>a\<close> unless it is undefined or empty.\<close>

definition str_or :: "string option \<Rightarrow> string \<Rightarrow> string" where
  "str_or a b = (case a of None \<Rightarrow> b | Some s \<Rightarrow> if s = [] then b else s)"

text \<open>The name of one entry \<^verbatim>\<open>type::schemaOrNull::table\<close> of the table list.\<close>

definition table_name :: "string \<Rightarrow> string" where
  "table_name s =
     (let parts = split_colons [] s;
          schema = (case nth_opt parts 1 of
                      None \<Rightarrow> None
                    | Some p \<Rightarrow> if p \<noteq> [] \<and> p \<noteq> ''null'' then Some p else None);
          table = str_or (nth_opt parts 2) (str_or (nth_opt parts 1) [])
      in toLowerCase (case schema of Some sc \<Rightarrow> sc @ ''.'' @ table | None \<Rightarrow> table))"

definition tablesUsed :: "'o env \<Rightarrow> config \<Rightarrow> string \<Rightarrow> string list io" where
  "tablesUsed env cfg sql =
     io_bind (io_call (TableList sql) (tableList env (dialectName cfg) sql))
       (\<lambda>list. io_return (filter (\<lambda>n. n \<noteq> []) (map table_name list)))"

text \<open>\<^verbatim>\<open>new Set(xs)\<close>, as the list of its members in insertion order.\<close>

definition js_set :: "'a list \<Rightarrow> 'a list" where
  "js_set xs = rev (remdups (rev xs))"

definition not_whitelisted :: "string \<Rightarrow> string list \<Rightarrow> error" where
  "not_whitelisted name allowed =
     JsError ([CHR 0x22] @ name @ [CHR 0x22] @ '' is not whitelisted. Allowed views: '' @
              join '', '' allowed)"

text \<open>The \<^verbatim>\<open>for\<close> loop over the set of used names.\<close>

fun check_names :: "string list \<Rightarrow> string list \<Rightarrow> unit io" where
  "check_names allowed [] = io_return ()"
| "check_names allowed (name # names) =
     (if name \<in> set allowed then check_names allowed names
      else io_throw (not_whitelisted name allowed))"

definition assertWhitelisted :: "'o env \<Rightarrow> config \<Rightarrow> string \<Rightarrow> unit io" where
  "assertWhitelisted env cfg sql =
     io_bind (tablesUsed env cfg sql)
       (\<lambda>used. check_names (js_set (SAFE_VIEWS cfg)) (js_set used))"

section \<open>Safe explain\<close>

text \<open>
  A node of the operator tree: \<^verbatim>\<open>op\<close>, and \<^verbatim>\<open>estimatedRows\<close>, \<^verbatim>\<open>totalCost\<close> and \<^verbatim>\<open>children\<close>
  when present. The numbers are of any type \<open>'n\<close>; \<^verbatim>\<open>formatTree\<close> only writes them out.
\<close>

datatype 'n plan_node =
  PlanNode (op: string) (estimatedRows: "'n option") (totalCost: "'n option")
    (children: "'n plan_node list option")

text \<open>The sign U+2248 of the two suffixes lies above 255; it is written as the three
  bytes of its UTF-8 form.\<close>

definition approx :: string where
  "approx = [CHR 0xE2, CHR 0x89, CHR 0x88]"

definition newline :: string where
  "newline = [CHR 0x0A]"

text \<open>\<^verbatim>\<open>"  ".repeat(depth)\<close>.\<close>

definition pad :: "nat \<Rightarrow> string" where
  "pad depth = concat (replicate depth ''  '')"

text \<open>\<open>shw\<close> is the conversion of a number to a string that the template literal applies;
  \<^verbatim>\<open>n.children || []\<close> is the case distinction on the children.\<close>

fun formatTree :: "('n \<Rightarrow> string) \<Rightarrow> 'n plan_node \<Rightarrow> nat \<Rightarrow> string" where
  "formatTree shw (PlanNode opn er tc ch) depth =
     (let head = pad depth @ ''- '' @ opn @
            (case er of None \<Rightarrow> [] | Some r \<Rightarrow> '' (rows'' @ approx @ shw r @ '')'') @
            (case tc of None \<Rightarrow> [] | Some c \<Rightarrow> '' (cost'' @ approx @ shw c @ '')'');
          kids = (case ch of
                    None \<Rightarrow> []
                  | Some cs \<Rightarrow> map (\<lambda>c. formatTree shw c (depth + 1)) cs)
      in join newline (head # kids))"

section \<open>Tools\<close>

record 'o query_result =
  rows :: "'o row list"
  rowsReturned :: nat

datatype 'o content = TextContent string | JsonContent "'o query_result"

definition sql_query :: "'o env \<Rightarrow> config \<Rightarrow> string \<Rightarrow> 'o content list io" where
  "sql_query env cfg input =
     (let raw = trim input in
      io_bind (assertSelectOnly env cfg raw) (\<lambda>_.
      io_bind (assertWhitelisted env cfg raw) (\<lambda>_.
        let safeSql = wrapWithLimit raw (MAX_ROWS cfg) in
        if DB_TYPE cfg = ''sqlite'' then
          io_bind (io_call SqliteOpen (Inr ())) (\<lambda>_.
          io_bind (io_call (SqliteAll safeSql) (map_sum id or_empty (sqlite_all env safeSql))) (\<lambda>rs.
          io_bind (io_call SqliteClose (Inr ())) (\<lambda>_.
            let masked = maskRows rs in
            io_return [JsonContent \<lparr>rows = masked, rowsReturned = length masked\<rparr>])))
        else if DB_TYPE cfg = ''postgres'' then
          io_bind
            (withPgClient env (\<lambda>_.
               io_call (PgQuery safeSql) (map_sum id or_empty (pg_query env safeSql))))
            (\<lambda>rs.
               let masked = maskRows rs in
               io_return [JsonContent \<lparr>rows = masked, rowsReturned = length masked\<rparr>])
        else io_throw (JsError (''Unsupported DB_TYPE: '' @ DB_TYPE cfg)))))"

definition genericTree :: "nat plan_node" where
  "genericTree = PlanNode ''Select'' None None (Some [PlanNode ''Scan'' None None None])"

definition sql_explain_safe :: "'o env \<Rightarrow> config \<Rightarrow> string \<Rightarrow> 'o content list io" where
  "sql_explain_safe env cfg input =
     (let raw = trim input in
      io_bind (assertSelectOnly env cfg raw) (\<lambda>_.
      io_bind (assertWhitelisted env cfg raw) (\<lambda>_.
        let text = formatTree show_nat genericTree 0 in
        io_return
          [TextContent ''This is a redacted, generic operator outline (beginner mode):'',
           TextContent text])))"

section \<open>The patterns unrolled\<close>

text \<open>
  For each pattern of the source, a function on strings that decides the same matches
  by recursion over the string. They are what the proofs below work with, once each
  is shown equal to the pattern it unrolls.
\<close>

text \<open>A position \<open>k\<close> characters further on, and the character before the end of a piece.\<close>

definition after :: "pos \<Rightarrow> nat \<Rightarrow> pos" where
  "after pos k = (if k = 0 then fst pos else Some (snd pos ! (k - 1)), drop k (snd pos))"

definition last_char :: "char option \<Rightarrow> string \<Rightarrow> char option" where
  "last_char p a = (if a = [] then p else Some (last a))"

text \<open>
  \<^verbatim>\<open>/limit\s+\d+/i\<close> at the start of \<open>s\<close>: the letters of \<open>limit\<close> in either case, one or
  more white space characters, then a digit; and at some position of the string.
\<close>

fun strip_ci :: "string \<Rightarrow> string \<Rightarrow> string option" where
  "strip_ci [] s = Some s"
| "strip_ci (p # ps) [] = None"
| "strip_ci (p # ps) (c # cs) = (if c = p \<or> code c + 32 = code p then strip_ci ps cs else None)"

definition limit_here :: "string \<Rightarrow> bool" where
  "limit_here s =
     (case strip_ci ''limit'' s of
        None \<Rightarrow> False
      | Some r \<Rightarrow>
          takeWhile is_space r \<noteq> [] \<and>
          (case dropWhile is_space r of [] \<Rightarrow> False | d # _ \<Rightarrow> is_digit d))"

fun has_limit :: "string \<Rightarrow> bool" where
  "has_limit [] = False"
| "has_limit (c # cs) = (limit_here (c # cs) \<or> has_limit cs)"

text \<open>
  The email pattern: a non-empty run of \<^verbatim>\<open>[^@\s]\<close>, an \<^verbatim>\<open>@\<close>, and a rest made of \<^verbatim>\<open>[^@\s]\<close>
  only that holds a dot which is neither its first nor its last character.
\<close>

definition email_shape :: "string \<Rightarrow> bool" where
  "email_shape v =
     (case dropWhile is_atext v of
        [] \<Rightarrow> False
      | c # d \<Rightarrow>
          takeWhile is_atext v \<noteq> [] \<and> c = CHR ''@'' \<and> list_all is_atext d \<and>
          CHR ''.'' \<in> set (butlast (tl d)))"

text \<open>The phone pattern: at some position a digit, with or without a plus sign before
  it, and six or more characters of the class after it.\<close>

definition phone_tail :: "string \<Rightarrow> bool" where
  "phone_tail s =
     (case s of [] \<Rightarrow> False | c # cs \<Rightarrow> is_digit c \<and> 6 \<le> length (takeWhile is_phone_char cs))"

definition phone_here :: "string \<Rightarrow> bool" where
  "phone_here s =
     (case s of [] \<Rightarrow> False | c # cs \<Rightarrow> (c = CHR ''+'' \<and> phone_tail cs) \<or> phone_tail (c # cs))"

fun phone_shape :: "string \<Rightarrow> bool" where
  "phone_shape [] = False"
| "phone_shape (c # cs) = (phone_here (c # cs) \<or> phone_shape cs)"

text \<open>The SSN pattern: eleven characters, digits but for the hyphens at 3 and 6.\<close>

definition ssn_shape :: "string \<Rightarrow> bool" where
  "ssn_shape v =
     (length v = 11 \<and> list_all is_digit (take 3 v) \<and> v ! 3 = CHR ''-'' \<and>
      list_all is_digit (take 2 (drop 4 v)) \<and> v ! 6 = CHR ''-'' \<and>
      list_all is_digit (drop 7 v))"

text \<open>
  \<^verbatim>\<open>/.(?=.{2})/g\<close>: a character is replaced when it and the two after it are matched by
  \<^verbatim>\<open>.\<close>. Every match is one character long and the look-ahead consumes nothing, so each
  position is decided on its own.
\<close>

fun mask_but_last2 :: "string \<Rightarrow> string" where
  "mask_but_last2 (c # d # e # r) =
     (if dot c \<and> dot d \<and> dot e then CHR ''*'' else c) # mask_but_last2 (d # e # r)"
| "mask_but_last2 s = s"

text \<open>\<^verbatim>\<open>(?=.*\.)\<close> before \<open>r\<close>: a full stop in \<open>r\<close> with no line terminator before it.\<close>

definition dot_ahead :: "string \<Rightarrow> bool" where
  "dot_ahead r = (CHR ''.'' \<in> set (takeWhile dot r))"

text \<open>\<^verbatim>\<open>/(?<=.).(?=.*\.)/g\<close>; \<open>prev\<close> is the character before the position.\<close>

fun mask_domain :: "char option \<Rightarrow> string \<Rightarrow> string" where
  "mask_domain prev [] = []"
| "mask_domain prev (c # cs) =
     (if (case prev of None \<Rightarrow> False | Some p \<Rightarrow> dot p) \<and> dot c \<and> dot_ahead cs
      then CHR ''*'' else c) # mask_domain (Some c) cs"

text \<open>\<^verbatim>\<open>\b\<close> after a digit: the end of the string, or a character that is not a word
  character.\<close>

definition word_end :: "string \<Rightarrow> bool" where
  "word_end r = (case r of [] \<Rightarrow> True | c # _ \<Rightarrow> \<not> is_word c)"

text \<open>\<^verbatim>\<open>/\d(?=\d{2}\b)/g\<close>: a digit is replaced when exactly the next two characters are
  digits and a word boundary follows them.\<close>

fun mask_phone_chars :: "string \<Rightarrow> string" where
  "mask_phone_chars (c # d # e # r) =
     (if is_digit c \<and> is_digit d \<and> is_digit e \<and> word_end r then CHR ''*'' else c)
       # mask_phone_chars (d # e # r)"
| "mask_phone_chars s = s"

text \<open>\<^verbatim>\<open>/^\d{3}-\d{2}/\<close> replaced by \<open>***-**\<close>.\<close>

definition mask_ssn_prefix :: "string \<Rightarrow> string" where
  "mask_ssn_prefix v =
     (if 6 \<le> length v \<and> list_all is_digit (take 3 v) \<and> v ! 3 = CHR ''-'' \<and>
         list_all is_digit (take 2 (drop 4 v))
      then ''***-**'' @ drop 6 v else v)"

section \<open>Readings of the specification\<close>

text \<open>
  The definitions of this section follow the words of the specification, not the code;
  the code's functions are compared with them below.
\<close>

text \<open>
  Spec reading (4.3, \<open>at its top level\<close>): the text of a statement outside every pair of
  parentheses, \<open>d\<close> counting the parentheses that are open.
\<close>

fun top_level :: "nat \<Rightarrow> string \<Rightarrow> string" where
  "top_level d [] = []"
| "top_level d (c # cs) =
     (if c = CHR ''('' then top_level (Suc d) cs
      else if c = CHR '')'' then top_level (d - 1) cs
      else if d = 0 then c # top_level d cs
      else top_level d cs)"

text \<open>Spec reading (4.4, phone masker): every digit is masked except the last two
  digits of the value; all other characters stay where they are.\<close>

fun spec_mask_phone :: "string \<Rightarrow> string" where
  "spec_mask_phone [] = []"
| "spec_mask_phone (c # cs) =
     (if is_digit c \<and> 2 \<le> length (filter is_digit cs) then CHR ''*'' else c)
       # spec_mask_phone cs"

text \<open>Spec reading (4.4, email masker, domain): every character of every label but the
  final one is masked; the dots between the labels stay.\<close>

definition spec_mask_domain :: "string \<Rightarrow> string" where
  "spec_mask_domain d =
     (let labels = js_split (CHR ''.'') d
      in join ''.'' (map (\<lambda>l. stars (length l)) (butlast labels) @ [last labels]))"

text \<open>Spec reading (4.4, steps 2 to 4): when a signal fires, one masker is chosen in the
  order SSN pattern, email pattern, phone pattern, generic fallback.\<close>

definition mask_by_spec_priority :: "string \<Rightarrow> string \<Rightarrow> string" where
  "mask_by_spec_priority col s =
     (if shouldMaskByColumn col \<or> looksLikeEmail s \<or> looksLikePhone s \<or> looksLikeSSN s
      then (if looksLikeSSN s then maskSSN s
            else if looksLikeEmail s then maskEmail s
            else if looksLikePhone s then maskPhone s
            else mask_generic s)
      else s)"






section \<open>Example configurations and collaborators\<close>

definition sqlite_cfg :: config where
  "sqlite_cfg = \<lparr>DB_TYPE = ''sqlite'', SAFE_VIEWS = [''safe_users_v''], MAX_ROWS = 200\<rparr>"

definition postgres_cfg :: config where
  "postgres_cfg = \<lparr>DB_TYPE = ''postgres'', SAFE_VIEWS = [''safe_users_v''], MAX_ROWS = 200\<rparr>"

definition sample_row :: "nat row" where
  "sample_row = [(''id'', JOther 7), (''email'', JString ''john.doe@example.com'')]"

text \<open>A parser that reads one \<^verbatim>\<open>SELECT\<close> over \<^verbatim>\<open>safe_users_v\<close>, and a database that answers with
  one row.\<close>

definition collab_ok :: "nat env" where
  "collab_ok =
     \<lparr>astify = (\<lambda>d s. Inr (AstObject (Stmt (Some ''select'')))),
      tableList = (\<lambda>d s. Inr [''select::null::safe_users_v'']),
      sqlite_all = (\<lambda>s. Inr (Some [sample_row])),
      pg_connect = None,
      pg_query = (\<lambda>s. Inr (Some [sample_row])),
      pg_end = None\<rparr>"

text \<open>A parser that reads two statements.\<close>

definition collab_two_statements :: "nat env" where
  "collab_two_statements =
     collab_ok
       \<lparr>astify := (\<lambda>d s. Inr (AstArray [Stmt (Some ''select''), Stmt (Some ''drop'')])),
        tableList := (\<lambda>d s. Inr [''select::null::users'', ''drop::null::users''])\<rparr>"

text \<open>A parser that reads one \<^verbatim>\<open>SELECT\<close> over \<^verbatim>\<open>secret_table\<close>.\<close>

definition collab_secret :: "nat env" where
  "collab_secret = collab_ok \<lparr>tableList := (\<lambda>d s. Inr [''select::null::secret_table''])\<rparr>"






text \<open>A database that answers with three rows, and these rows masked.\<close>

definition sample_rows :: "nat row list" where
  "sample_rows =
     [sample_row,
      [(''id'', JOther 8), (''phone'', JString ''555-123-4567'')],
      [(''id'', JOther 9), (''notes'', JString ''987-65-4321''), (''city'', JString ''Oslo'')]]"

definition masked_sample_rows :: "nat row list" where
  "masked_sample_rows =
     [[(''id'', JOther 7), (''email'', JString ''j******e@e******.com'')],
      [(''id'', JOther 8), (''phone'', JString ''*55-*23-4*67'')],
      [(''id'', JOther 9), (''notes'', JString ''***-**-4321''), (''city'', JString ''Oslo'')]]"

definition collab_three_rows :: "nat env" where
  "collab_three_rows =
     collab_ok
       \<lparr>sqlite_all := (\<lambda>s. Inr (Some sample_rows)),
        pg_query := (\<lambda>s. Inr (Some sample_rows))\<rparr>"

text \<open>A database whose execution step fails.\<close>

definition collab_db_error :: "nat env" where
  "collab_db_error =
     collab_ok
       \<lparr>sqlite_all := (\<lambda>s. Inl (JsError ''SQLITE_ERROR: no such table: safe_users_v'')),
        pg_query := (\<lambda>s. Inl (JsError ''relation safe_users_v does not exist''))\<rparr>"

section \<open>Properties of the regular expressions\<close>

subsection \<open>Where a repetition can end\<close>

text \<open>
  A repetition of a class can end after any number of characters between its bounds
  that is not beyond the run of characters of the class at the position: said with
  positions \<open>k\<close> characters on, and with the splits of the rest into a piece of the class
  and what follows.
\<close>

lemma after_0: "after (p, rest) 0 = (p, rest)"
  by (simp add: after_def)

lemma after_Suc: "after (p, c # cs) (Suc k) = after (Some c, cs) k"
  by (cases k) (simp_all add: after_def)

lemma rep_set:
  "set (rep lo hi P (p, rest)) =
     {after (p, rest) k | k. lo \<le> k \<and> k \<le> length (takeWhile P rest) \<and> (\<forall>h. hi = Some h \<longrightarrow> k \<le> h)}"
proof (induction rest arbitrary: lo hi p)
  case Nil
  show ?case by (auto simp: after_0)
next
  case (Cons c cs)
  show ?case
  proof (cases "P c \<and> hi \<noteq> Some 0")
    case False
    have zero: "k = 0"
      if "k \<le> length (takeWhile P (c # cs))" "\<forall>h. hi = Some h \<longrightarrow> k \<le> h" for k
    proof (cases "P c")
      case True
      with False have "hi = Some 0" by simp
      with that(2) show ?thesis by simp
    next
      case False
      with that(1) show ?thesis by simp
    qed
    have l: "set (rep lo hi P (p, c # cs)) = (if lo = 0 then {(p, c # cs)} else {})"
    proof (cases "P c")
      case True
      with False have "hi = Some 0" by simp
      then show ?thesis by simp
    next
      case False
      then show ?thesis by simp
    qed
    show ?thesis
    proof (intro set_eqI iffI)
      fix x assume "x \<in> set (rep lo hi P (p, c # cs))"
      with l have "lo = 0" "x = after (p, c # cs) 0"
        by (simp_all add: after_0 split: if_splits)
      then show "x \<in> {after (p, c # cs) k | k. lo \<le> k \<and> k \<le> length (takeWhile P (c # cs)) \<and>
           (\<forall>h. hi = Some h \<longrightarrow> k \<le> h)}"
        by blast
    next
      fix x assume "x \<in> {after (p, c # cs) k | k. lo \<le> k \<and> k \<le> length (takeWhile P (c # cs)) \<and>
           (\<forall>h. hi = Some h \<longrightarrow> k \<le> h)}"
      then obtain k where k: "x = after (p, c # cs) k" "lo \<le> k"
          "k \<le> length (takeWhile P (c # cs))" "\<forall>h. hi = Some h \<longrightarrow> k \<le> h"
        by blast
      from zero [OF k(3,4)] k(1,2) have "lo = 0" "x = (p, c # cs)"
        by (simp_all add: after_0)
      with l show "x \<in> set (rep lo hi P (p, c # cs))"
        by simp
    qed
  next
    case True
    let ?hi = "map_option (\<lambda>h. h - 1) hi"
    have tail: "set (rep (lo - 1) ?hi P (Some c, cs)) =
        {after (Some c, cs) k | k. lo - 1 \<le> k \<and> k \<le> length (takeWhile P cs) \<and>
           (\<forall>h. ?hi = Some h \<longrightarrow> k \<le> h)}"
      by (rule Cons.IH)
    have "set (rep lo hi P (p, c # cs)) =
        set (rep (lo - 1) ?hi P (Some c, cs)) \<union> (if lo = 0 then {(p, c # cs)} else {})"
      using True by simp
    also have "\<dots> = {after (p, c # cs) k | k. lo \<le> k \<and> k \<le> length (takeWhile P (c # cs)) \<and>
           (\<forall>h. hi = Some h \<longrightarrow> k \<le> h)}" (is "?L = ?R")
    proof (intro set_eqI iffI)
      fix x assume "x \<in> ?L"
      then consider (tl) "x \<in> set (rep (lo - 1) ?hi P (Some c, cs))" | (hd) "lo = 0" "x = (p, c # cs)"
        by (auto split: if_splits)
      then show "x \<in> ?R"
      proof cases
        case tl
        with tail obtain k where k: "x = after (Some c, cs) k" "lo - 1 \<le> k"
            "k \<le> length (takeWhile P cs)" "\<forall>h. ?hi = Some h \<longrightarrow> k \<le> h"
          by auto
        have "x = after (p, c # cs) (Suc k)"
          by (simp add: k(1) after_Suc)
        moreover have "lo \<le> Suc k" using k(2) by simp
        moreover have "Suc k \<le> length (takeWhile P (c # cs))" using k(3) True by simp
        moreover have "\<forall>h. hi = Some h \<longrightarrow> Suc k \<le> h"
          using k(4) True by (cases hi) auto
        ultimately show ?thesis by blast
      next
        case hd
        have "x = after (p, c # cs) 0" by (simp add: hd after_0)
        with hd show ?thesis by blast
      qed
    next
      fix x assume "x \<in> ?R"
      then obtain k where k: "x = after (p, c # cs) k" "lo \<le> k"
          "k \<le> length (takeWhile P (c # cs))" "\<forall>h. hi = Some h \<longrightarrow> k \<le> h"
        by auto
      show "x \<in> ?L"
      proof (cases k)
        case 0
        with k show ?thesis by (simp add: after_0)
      next
        case (Suc j)
        have "x = after (Some c, cs) j" by (simp add: k(1) Suc after_Suc)
        moreover have "lo - 1 \<le> j" using k(2) Suc by simp
        moreover have "j \<le> length (takeWhile P cs)" using k(3) Suc True by simp
        moreover have "\<forall>h. ?hi = Some h \<longrightarrow> j \<le> h" using k(4) Suc by (cases hi) auto
        ultimately have "x \<in> set (rep (lo - 1) ?hi P (Some c, cs))"
          unfolding tail by blast
        then show ?thesis by simp
      qed
    qed
    finally show ?thesis .
  qed
qed

lemma concat_map_nonempty: "(concat (map f xs) \<noteq> []) = (\<exists>x \<in> set xs. f x \<noteq> [])"
  by (induction xs) auto

lemma ends_Seq_nonempty: "(ends (Seq a b) pos \<noteq> []) = (\<exists>q \<in> set (ends a pos). ends b q \<noteq> [])"
  by (simp add: concat_map_nonempty)

lemma seqs_Nil: "seqs [] = Eps"
  by (simp add: seqs_def)

lemma seqs_Cons: "seqs (r # rs) = Seq r (seqs rs)"
  by (simp add: seqs_def)

lemma le_takeWhile:
  "(k \<le> length (takeWhile P xs)) = (k \<le> length xs \<and> list_all P (take k xs))"
proof (induction xs arbitrary: k)
  case Nil
  then show ?case by simp
next
  case (Cons x xs)
  then show ?case by (cases k) auto
qed

lemma after_split:
  "k \<le> length rest \<Longrightarrow> after (p, rest) k = (last_char p (take k rest), drop k rest)"
proof (cases k)
  case 0
  then show ?thesis by (simp add: after_def last_char_def)
next
  case (Suc j)
  assume "k \<le> length rest"
  with Suc have j: "j < length rest" by simp
  then have "take (Suc j) rest \<noteq> []" by auto
  moreover have "last (take (Suc j) rest) = rest ! j"
    using j by (simp add: take_Suc_conv_app_nth)
  ultimately show ?thesis
    by (simp add: Suc after_def last_char_def)
qed

lemma rep_split:
  "set (rep lo hi P (p, rest)) =
     {(last_char p a, b) | a b. rest = a @ b \<and> list_all P a \<and> lo \<le> length a \<and>
        (\<forall>h. hi = Some h \<longrightarrow> length a \<le> h)}" (is "?L = ?R")
proof (intro set_eqI iffI)
  fix x assume "x \<in> ?L"
  then obtain k where k: "x = after (p, rest) k" "lo \<le> k" "k \<le> length (takeWhile P rest)"
      "\<forall>h. hi = Some h \<longrightarrow> k \<le> h"
    unfolding rep_set by blast
  from k(3) have kl: "k \<le> length rest" "list_all P (take k rest)"
    by (simp_all add: le_takeWhile)
  have x: "x = (last_char p (take k rest), drop k rest)"
    using k(1) kl(1) by (simp add: after_split)
  have len: "length (take k rest) = k" using kl(1) by simp
  have "\<exists>a b. x = (last_char p a, b) \<and> rest = a @ b \<and> list_all P a \<and> lo \<le> length a \<and>
        (\<forall>h. hi = Some h \<longrightarrow> length a \<le> h)"
    using x k(2,4) kl(2) len
    by (intro exI [of _ "take k rest"] exI [of _ "drop k rest"]) simp
  then show "x \<in> ?R"
    by simp
next
  fix x assume "x \<in> ?R"
  then obtain a b where ab: "x = (last_char p a, b)" "rest = a @ b" "list_all P a"
      "lo \<le> length a" "\<forall>h. hi = Some h \<longrightarrow> length a \<le> h"
    by blast
  have "length a \<le> length (takeWhile P rest)"
    using ab(2,3) by (simp add: le_takeWhile)
  moreover have "x = after (p, rest) (length a)"
    using ab(1,2) by (simp add: after_split)
  ultimately have "\<exists>k. x = after (p, rest) k \<and> lo \<le> k \<and> k \<le> length (takeWhile P rest) \<and>
      (\<forall>h. hi = Some h \<longrightarrow> k \<le> h)"
    using ab(4,5) by (intro exI [of _ "length a"]) simp
  then show "x \<in> ?L"
    unfolding rep_set by simp
qed

lemma rep_nonempty:
  "(rep lo hi P (p, rest) \<noteq> []) =
     (lo \<le> length (takeWhile P rest) \<and> (\<forall>h. hi = Some h \<longrightarrow> lo \<le> h))"
proof -
  have "(rep lo hi P (p, rest) \<noteq> []) = (set (rep lo hi P (p, rest)) \<noteq> {})"
    by simp
  also have "\<dots> = (\<exists>k. lo \<le> k \<and> k \<le> length (takeWhile P rest) \<and> (\<forall>h. hi = Some h \<longrightarrow> k \<le> h))"
    unfolding rep_set by (auto simp: after_def)
  also have "\<dots> = (lo \<le> length (takeWhile P rest) \<and> (\<forall>h. hi = Some h \<longrightarrow> lo \<le> h))"
  proof
    assume "\<exists>k. lo \<le> k \<and> k \<le> length (takeWhile P rest) \<and> (\<forall>h. hi = Some h \<longrightarrow> k \<le> h)"
    then obtain k where "lo \<le> k" "k \<le> length (takeWhile P rest)" "\<forall>h. hi = Some h \<longrightarrow> k \<le> h"
      by blast
    then show "lo \<le> length (takeWhile P rest) \<and> (\<forall>h. hi = Some h \<longrightarrow> lo \<le> h)"
      by (auto intro: order_trans)
  next
    assume "lo \<le> length (takeWhile P rest) \<and> (\<forall>h. hi = Some h \<longrightarrow> lo \<le> h)"
    then show "\<exists>k. lo \<le> k \<and> k \<le> length (takeWhile P rest) \<and> (\<forall>h. hi = Some h \<longrightarrow> k \<le> h)"
      by (intro exI [of _ lo]) simp
  qed
  finally show ?thesis .
qed

declare rep.simps [simp del]

lemma ends_seqs_Cons_nonempty:
  "(ends (seqs (r # rs)) pos \<noteq> []) = (\<exists>q \<in> set (ends r pos). ends (seqs rs) q \<noteq> [])"
  by (simp add: seqs_Cons concat_map_nonempty)

lemma ends_seqs_Nil: "ends (seqs []) pos = [pos]"
  by (simp add: seqs_Nil)

lemma concat_map_Eps: "concat (map (ends Eps) xs) = xs"
  by (induction xs) auto

lemma ends_seqs_single: "ends (seqs [r]) pos = ends r pos"
  by (simp add: seqs_def concat_map_Eps)

subsection \<open>The limit pattern\<close>

lemma digit_not_space: "is_digit c \<Longrightarrow> \<not> is_space c"
  by (auto simp: is_digit_def is_space_def)

lemma plus_digit: "(rep (Suc 0) None is_digit (q, r) \<noteq> []) = (case r of [] \<Rightarrow> False | d # _ \<Rightarrow> is_digit d)"
  by (cases r) (auto simp: rep_nonempty)

lemma limit_tail:
  "(ends (seqs [Rep 1 None is_space, Rep 1 None is_digit]) (q, r) \<noteq> []) =
     (takeWhile is_space r \<noteq> [] \<and> (case dropWhile is_space r of [] \<Rightarrow> False | d # _ \<Rightarrow> is_digit d))"
    (is "?L = ?R")
proof
  assume ?L
  then obtain x where x: "x \<in> set (rep 1 None is_space (q, r))" "rep 1 None is_digit x \<noteq> []"
    by (auto simp: ends_seqs_Cons_nonempty ends_seqs_single)
  from x(1) obtain a b where ab0: "x = (last_char q a, b)" "r = a @ b" "list_all is_space a"
      "1 \<le> length a"
    unfolding rep_split by blast
  with x(2) have ab: "r = a @ b" "list_all is_space a" "1 \<le> length a"
      "rep 1 None is_digit (last_char q a, b) \<noteq> []"
    by simp_all
  from ab(4) obtain d b' where b: "b = d # b'" "is_digit d"
    by (cases b) (auto simp: plus_digit)
  then have "\<not> is_space d"
    by (simp add: digit_not_space)
  with ab(1,2) b(1) have "takeWhile is_space r = a" "dropWhile is_space r = d # b'"
    by (simp_all add: list_all_iff takeWhile_tail dropWhile_append3)
  with ab(3) b(2) show ?R
    by auto
next
  assume r: ?R
  then obtain d b' where d: "dropWhile is_space r = d # b'" "is_digit d"
    by (cases "dropWhile is_space r") auto
  let ?a = "takeWhile is_space r"
  have "r = ?a @ d # b'"
    using d(1) takeWhile_dropWhile_id [of is_space r] by simp
  moreover have "list_all is_space ?a"
    by (auto simp: list_all_iff dest: set_takeWhileD)
  moreover have "1 \<le> length ?a"
    using r by (cases ?a) auto
  moreover have "rep 1 None is_digit (last_char q ?a, d # b') \<noteq> []"
    using d(2) by (simp add: plus_digit)
  ultimately have "\<exists>x \<in> set (rep 1 None is_space (q, r)). rep 1 None is_digit x \<noteq> []"
    unfolding rep_split by blast
  then show ?L
    by (simp add: ends_seqs_Cons_nonempty ends_seqs_single)
qed

lemma ends_literal:
  assumes "\<And>q r. (ends (seqs rs) (q, r) \<noteq> []) = tail r"
  shows "(ends (seqs (map (\<lambda>a. Class (ci_char a)) ps @ rs)) (p, s) \<noteq> []) =
           (case strip_ci ps s of None \<Rightarrow> False | Some r \<Rightarrow> tail r)"
proof (induction ps arbitrary: p s)
  case Nil
  then show ?case by (simp add: assms)
next
  case (Cons a ps)
  show ?case
  proof (cases s)
    case Nil
    then show ?thesis by (simp add: seqs_Cons)
  next
    case (Cons c cs)
    have "strip_ci (a # ps) (c # cs) = (if ci_char a c then strip_ci ps cs else None)"
      by (simp add: ci_char_def)
    with Cons show ?thesis
      by (simp add: seqs_Cons Cons.IH del: strip_ci.simps)
  qed
qed

lemma ends_limit_rx: "(ends limit_rx (p, s) \<noteq> []) = limit_here s"
  unfolding limit_rx_def limit_here_def
  by (rule ends_literal) (rule limit_tail)

lemma rx_test_limit: "rx_test limit_rx s = has_limit s"
proof -
  have "any_pos (\<lambda>pos. ends limit_rx pos \<noteq> []) (p, s) = has_limit s" for p
  proof (induction s arbitrary: p)
    case Nil
    show ?case by (simp add: ends_limit_rx limit_here_def)
  next
    case (Cons c cs)
    then show ?case by (simp add: ends_limit_rx)
  qed
  then show ?thesis
    by (simp add: rx_test_def)
qed

lemma rep_zero: "rep 0 (Some 0) P (p, rest) = [(p, rest)]"
  by (cases rest) (simp_all add: rep.simps)

lemma ends_class_step:
  "(ends (seqs (Class C # rs)) (q, b) \<noteq> []) =
     (case b of [] \<Rightarrow> False | c # cs \<Rightarrow> C c \<and> ends (seqs rs) (Some c, cs) \<noteq> [])"
  by (cases b) (simp_all add: seqs_Cons)

lemma rep_plus_member:
  "(x \<in> set (rep (Suc 0) None P (p, r))) =
     (\<exists>a b. x = (Some (last a), b) \<and> r = a @ b \<and> a \<noteq> [] \<and> list_all P a)" (is "?L = ?R")
proof
  assume ?L
  then have "\<exists>a b. x = (last_char p a, b) \<and> r = a @ b \<and> list_all P a \<and> Suc 0 \<le> length a"
    unfolding rep_split by simp
  then obtain a b where ab: "x = (last_char p a, b)" "r = a @ b" "list_all P a" "Suc 0 \<le> length a"
    by blast
  from ab(4) have ne: "a \<noteq> []" by auto
  then have "x = (Some (last a), b)"
    by (simp add: ab(1) last_char_def)
  with ab(2,3) ne show ?R by blast
next
  assume ?R
  then obtain a b where ab: "x = (Some (last a), b)" "r = a @ b" "a \<noteq> []" "list_all P a"
    by blast
  from ab(3) have "Suc 0 \<le> length a" by (cases a) auto
  moreover from ab(1,3) have "x = (last_char p a, b)"
    by (simp add: last_char_def)
  ultimately have "\<exists>a b. x = (last_char p a, b) \<and> r = a @ b \<and> list_all P a \<and> Suc 0 \<le> length a"
    using ab(2,4) by blast
  then show ?L
    unfolding rep_split by simp
qed

lemma ends_plus_step:
  "(ends (seqs (Rep (Suc 0) None P # rs)) (p, r) \<noteq> []) =
     (\<exists>a b. r = a @ b \<and> a \<noteq> [] \<and> list_all P a \<and> ends (seqs rs) (Some (last a), b) \<noteq> [])"
    (is "?L = ?R")
proof
  assume ?L
  then have "\<exists>x \<in> set (rep (Suc 0) None P (p, r)). ends (seqs rs) x \<noteq> []"
    unfolding ends_seqs_Cons_nonempty by simp
  then obtain x where x: "x \<in> set (rep (Suc 0) None P (p, r))" "ends (seqs rs) x \<noteq> []"
    by blast
  from x(1) obtain a b where "x = (Some (last a), b)" "r = a @ b" "a \<noteq> []" "list_all P a"
    unfolding rep_plus_member by blast
  with x(2) show ?R by blast
next
  assume ?R
  then obtain a b where ab: "r = a @ b" "a \<noteq> []" "list_all P a"
      "ends (seqs rs) (Some (last a), b) \<noteq> []"
    by blast
  then have "(Some (last a), b) \<in> set (rep (Suc 0) None P (p, r))"
    unfolding rep_plus_member by blast
  with ab(4) have "\<exists>x \<in> set (rep (Suc 0) None P (p, r)). ends (seqs rs) x \<noteq> []"
    by blast
  then show ?L
    unfolding ends_seqs_Cons_nonempty by simp
qed

lemma ends_Eol: "(ends (seqs [Eol]) (q, b) \<noteq> []) = (b = [])"
  by (simp add: ends_seqs_single)

subsection \<open>The phone pattern\<close>

lemma phone_tail_rx:
  "(ends (seqs [Class is_digit, Rep 6 None is_phone_char]) (q, b) \<noteq> []) = phone_tail b"
  by (cases b) (simp_all add: ends_class_step ends_seqs_single rep_nonempty phone_tail_def)

lemma phone_tail_snd:
  "(ends (seqs [Class is_digit, Rep 6 None is_phone_char]) x \<noteq> []) = phone_tail (snd x)"
  by (cases x) (simp add: phone_tail_rx)

lemma ends_phone_rx: "(ends phone_rx (p, s) \<noteq> []) = phone_here s"
proof -
  have step: "(ends phone_rx (p, s) \<noteq> []) =
      (\<exists>x \<in> set (rep 0 (Some 1) (is_char (CHR ''+'')) (p, s)). phone_tail (snd x))"
    unfolding phone_rx_def
      ends_seqs_Cons_nonempty [of "Rep 0 (Some 1) (is_char (CHR ''+''))"
        "[Class is_digit, Rep 6 None is_phone_char]"]
      phone_tail_snd
    by simp
  show ?thesis
  proof (cases s)
    case Nil
    have "rep 0 (Some 1) (is_char (CHR ''+'')) (p, []) = [(p, [])]"
      by (simp add: rep.simps)
    with Nil show ?thesis
      unfolding step by (simp add: phone_here_def phone_tail_def)
  next
    case (Cons c cs)
    have "rep 0 (Some 1) (is_char (CHR ''+'')) (p, c # cs) =
        (if c = CHR ''+'' then [(Some c, cs)] else []) @ [(p, c # cs)]"
      by (simp add: rep.simps rep_zero is_char_def)
    with Cons show ?thesis
      unfolding step by (auto simp: phone_here_def)
  qed
qed

lemma rx_test_phone: "rx_test phone_rx s = phone_shape s"
proof -
  have "any_pos (\<lambda>pos. ends phone_rx pos \<noteq> []) (p, s) = phone_shape s" for p
  proof (induction s arbitrary: p)
    case Nil
    show ?case by (simp add: ends_phone_rx phone_here_def)
  next
    case (Cons c cs)
    then show ?case by (simp add: ends_phone_rx)
  qed
  then show ?thesis
    by (simp add: rx_test_def)
qed

subsection \<open>Anchored patterns\<close>

lemma any_pos_Bol: "\<not> any_pos (\<lambda>pos. ends (seqs (Bol # rs)) pos \<noteq> []) (Some q, s)"
  by (induction s arbitrary: q) (simp_all add: seqs_Cons)

lemma ends_Bol_start: "ends (seqs (Bol # rs)) (None, s) = ends (seqs rs) (None, s)"
  by (simp add: seqs_Cons)

lemma rx_test_Bol: "rx_test (seqs (Bol # rs)) s = (ends (seqs rs) (None, s) \<noteq> [])"
proof (cases s)
  case Nil
  then show ?thesis
    by (simp add: rx_test_def ends_Bol_start)
next
  case (Cons c cs)
  then show ?thesis
    using any_pos_Bol [of rs c cs] by (simp add: rx_test_def ends_Bol_start)
qed

subsection \<open>The email pattern\<close>

lemma inner_member:
  "(x \<in> set (butlast (tl d))) = (\<exists>a b. d = a @ x # b \<and> a \<noteq> [] \<and> b \<noteq> [])" (is "?L = ?R")
proof
  assume l: ?L
  then obtain c t where d: "d = c # t"
    by (cases d) auto
  with l have "x \<in> set (butlast t)" by simp
  then obtain a' b' where "butlast t = a' @ x # b'"
    by (meson split_list)
  moreover from \<open>x \<in> set (butlast t)\<close> have "t \<noteq> []" by auto
  ultimately have "t = a' @ x # b' @ [last t]"
    by (metis append_butlast_last_id append.assoc append_Cons)
  with d have "d = (c # a') @ x # (b' @ [last t])" by simp
  then show ?R by blast
next
  assume ?R
  then obtain a b where ab: "d = a @ x # b" "a \<noteq> []" "b \<noteq> []"
    by blast
  from ab(2) obtain c a' where a: "a = c # a'" by (cases a) auto
  from ab(3) obtain b' l where b: "b = b' @ [l]" by (cases b rule: rev_cases) auto
  have "butlast (tl d) = a' @ x # b'"
    by (simp add: ab(1) a b butlast_append)
  then show ?L by simp
qed

lemma atext_full_stop: "is_atext (CHR ''.'')"
  by (simp add: is_atext_def is_space_def code_def)

lemma not_atext_at: "\<not> is_atext (CHR ''@'')"
  by (simp add: is_atext_def)

lemma rx_test_email: "rx_test email_rx v = email_shape v"
proof -
  have tail: "(ends (seqs [Rep (Suc 0) None is_atext, Class (is_char (CHR ''.'')),
                 Rep (Suc 0) None is_atext, Eol]) (q, d) \<noteq> []) =
              (list_all is_atext d \<and> CHR ''.'' \<in> set (butlast (tl d)))" (is "?L = ?R") for q d
  proof
    assume ?L
    then obtain a b where ab: "d = a @ b" "a \<noteq> []" "list_all is_atext a"
        "ends (seqs [Class (is_char (CHR ''.'')), Rep (Suc 0) None is_atext, Eol])
           (Some (last a), b) \<noteq> []"
      unfolding ends_plus_step by blast
    from ab(4) obtain b' where b: "b = CHR ''.'' # b'"
        "ends (seqs [Rep (Suc 0) None is_atext, Eol]) (Some (CHR ''.''), b') \<noteq> []"
      by (cases b) (auto simp: ends_class_step is_char_def)
    from b(2) have b': "b' \<noteq> []" "list_all is_atext b'"
      by (auto simp: ends_plus_step ends_Eol)
    have d: "d = a @ CHR ''.'' # b'" by (simp add: ab(1) b(1))
    with ab(2) b'(1) have "\<exists>a0 b0. d = a0 @ CHR ''.'' # b0 \<and> a0 \<noteq> [] \<and> b0 \<noteq> []"
      by blast
    then have "CHR ''.'' \<in> set (butlast (tl d))"
      unfolding inner_member .
    moreover have "list_all is_atext d"
      using ab(3) b'(2) by (simp add: d atext_full_stop)
    ultimately show ?R
      by simp
  next
    assume r: ?R
    then have "\<exists>a b. d = a @ CHR ''.'' # b \<and> a \<noteq> [] \<and> b \<noteq> []"
      unfolding inner_member by simp
    then obtain a b where ab: "d = a @ CHR ''.'' # b" "a \<noteq> []" "b \<noteq> []"
      by blast
    from r have "list_all is_atext d" by simp
    then have all: "list_all is_atext a" "list_all is_atext b"
      by (simp_all add: ab(1))
    have "ends (seqs [Rep (Suc 0) None is_atext, Eol]) (Some (CHR ''.''), b) \<noteq> []"
      unfolding ends_plus_step using ab(3) all(2)
      by (intro exI [of _ b] exI [of _ "[]"]) (simp add: ends_Eol)
    then have "ends (seqs [Class (is_char (CHR ''.'')), Rep (Suc 0) None is_atext, Eol])
        (Some (last a), CHR ''.'' # b) \<noteq> []"
      by (simp add: ends_class_step is_char_def)
    then show ?L
      unfolding ends_plus_step [of is_atext] using ab(1,2) all(1)
      by (intro exI [of _ a] exI [of _ "CHR ''.'' # b"]) simp
  qed
  have "(ends (seqs [Rep (Suc 0) None is_atext, Class (is_char (CHR ''@'')),
            Rep (Suc 0) None is_atext, Class (is_char (CHR ''.'')),
            Rep (Suc 0) None is_atext, Eol]) (None, v) \<noteq> []) = email_shape v" (is "?L = ?R")
  proof
    assume ?L
    then obtain a b where ab: "v = a @ b" "a \<noteq> []" "list_all is_atext a"
        "ends (seqs [Class (is_char (CHR ''@'')), Rep (Suc 0) None is_atext,
           Class (is_char (CHR ''.'')), Rep (Suc 0) None is_atext, Eol]) (Some (last a), b) \<noteq> []"
      unfolding ends_plus_step by blast
    from ab(4) obtain d where d: "b = CHR ''@'' # d" "list_all is_atext d"
        "CHR ''.'' \<in> set (butlast (tl d))"
      by (cases b) (auto simp: ends_class_step is_char_def tail)
    have "takeWhile is_atext v = a" "dropWhile is_atext v = CHR ''@'' # d"
      using ab(1,3) d(1) not_atext_at
      by (simp_all add: list_all_iff takeWhile_tail dropWhile_append3)
    with ab(2) d(2,3) show ?R
      by (simp add: email_shape_def)
  next
    assume r: ?R
    then obtain c d where cd: "dropWhile is_atext v = c # d"
      by (cases "dropWhile is_atext v") (auto simp: email_shape_def)
    with r have h: "takeWhile is_atext v \<noteq> []" "c = CHR ''@''" "list_all is_atext d"
        "CHR ''.'' \<in> set (butlast (tl d))"
      by (auto simp: email_shape_def)
    let ?a = "takeWhile is_atext v"
    have v: "v = ?a @ CHR ''@'' # d"
      using cd h(2) takeWhile_dropWhile_id [of is_atext v] by simp
    have "list_all is_atext ?a"
      by (auto simp: list_all_iff dest: set_takeWhileD)
    moreover have "ends (seqs [Class (is_char (CHR ''@'')), Rep (Suc 0) None is_atext,
           Class (is_char (CHR ''.'')), Rep (Suc 0) None is_atext, Eol])
           (Some (last ?a), CHR ''@'' # d) \<noteq> []"
      using h(3,4) by (simp add: ends_class_step is_char_def tail)
    ultimately show ?L
      unfolding ends_plus_step [of is_atext] using v h(1)
      by (intro exI [of _ ?a] exI [of _ "CHR ''@'' # d"]) simp
  qed
  then show ?thesis
    by (simp add: email_rx_def rx_test_Bol)
qed

subsection \<open>Repetitions of a fixed number\<close>

lemma rep_exact:
  "rep n (Some n) P (p, r) =
     (if n \<le> length r \<and> list_all P (take n r) then [(last_char p (take n r), drop n r)] else [])"
proof (induction n arbitrary: p r)
  case 0
  show ?case by (simp add: rep_zero last_char_def)
next
  case (Suc n)
  show ?case
  proof (cases r)
    case Nil
    then show ?thesis by (simp add: rep.simps)
  next
    case (Cons c cs)
    have "rep (Suc n) (Some (Suc n)) P (p, c # cs) =
        (if P c then rep n (Some n) P (Some c, cs) else [])"
      by (simp add: rep.simps)
    then show ?thesis
      by (simp add: Cons Suc.IH last_char_def)
  qed
qed

lemma ends_exact_step:
  "(ends (seqs (Rep n (Some n) P # rs)) (p, r) \<noteq> []) =
     (n \<le> length r \<and> list_all P (take n r) \<and>
      ends (seqs rs) (last_char p (take n r), drop n r) \<noteq> [])"
  by (simp add: seqs_Cons rep_exact)

lemma ends_class_drop:
  "(ends (seqs (Class C # rs)) (q, drop n v) \<noteq> []) =
     (n < length v \<and> C (v ! n) \<and> ends (seqs rs) (Some (v ! n), drop (Suc n) v) \<noteq> [])"
proof (cases "n < length v")
  case True
  then have "drop n v = v ! n # drop (Suc n) v"
    by (simp add: Cons_nth_drop_Suc)
  with True show ?thesis
    by (simp add: ends_class_step)
next
  case False
  then show ?thesis
    by (simp add: ends_class_step)
qed

subsection \<open>The SSN pattern\<close>

lemma rx_test_ssn: "rx_test ssn_rx v = ssn_shape v"
proof -
  have "(ends (seqs [Rep 3 (Some 3) is_digit, Class (is_char (CHR ''-'')), Rep 2 (Some 2) is_digit,
            Class (is_char (CHR ''-'')), Rep 4 (Some 4) is_digit, Eol]) (None, v) \<noteq> []) =
        (3 \<le> length v \<and> list_all is_digit (take 3 v) \<and>
         (3 < length v \<and> v ! 3 = CHR ''-'' \<and>
          (2 \<le> length (drop 4 v) \<and> list_all is_digit (take 2 (drop 4 v)) \<and>
           (6 < length v \<and> v ! 6 = CHR ''-'' \<and>
            (4 \<le> length (drop 7 v) \<and> list_all is_digit (take 4 (drop 7 v)) \<and>
             drop 11 v = [])))))"
    unfolding ends_exact_step ends_class_drop ends_Eol drop_drop is_char_def
    by (simp add: eval_nat_numeral)
  also have "\<dots> = ssn_shape v"
    by (auto simp: ssn_shape_def)
  finally show ?thesis
    by (simp add: ssn_rx_def rx_test_Bol)
qed

subsection \<open>Replacing one character at a time\<close>

lemma replace_from_char:
  assumes "ends r (p, c # cs) = (if M then [(Some c, cs)] else [])"
  shows "replace_from r sub (p, c # cs) = (if M then sub else [c]) @ replace_from r sub (Some c, cs)"
  using assms by simp

lemma replace_from_Nil: "ends r (p, []) = [] \<Longrightarrow> replace_from r sub (p, []) = []"
  by simp

declare replace_from.simps [simp del]

lemma ends_class_ahead:
  "ends (seqs [Class C, Ahead r]) (p, c # cs) =
     (if C c \<and> ends r (Some c, cs) \<noteq> [] then [(Some c, cs)] else [])"
  by (simp add: seqs_def)

lemma ends_class_ahead_Nil: "ends (seqs (Class C # rs)) (p, []) = []"
  by (simp add: seqs_Cons)

subsection \<open>The pattern of all but the last two characters\<close>

lemma exact2_nonempty:
  "(rep 2 (Some 2) P (q, cs) \<noteq> []) = (case cs of d # e # _ \<Rightarrow> P d \<and> P e | _ \<Rightarrow> False)"
  by (auto simp: rep_exact eval_nat_numeral split: list.splits)

lemma ends_but_last2:
  "ends but_last2_rx (p, c # cs) =
     (if dot c \<and> (case cs of d # e # _ \<Rightarrow> dot d \<and> dot e | _ \<Rightarrow> False) then [(Some c, cs)] else [])"
  by (simp add: but_last2_rx_def ends_class_ahead exact2_nonempty)

lemma but_last2_Nil: "replace_from but_last2_rx ''*'' (p, []) = []"
  by (simp add: replace_from_Nil but_last2_rx_def ends_class_ahead_Nil)

lemma but_last2_one: "replace_from but_last2_rx ''*'' (p, [c]) = [c]"
proof -
  have "replace_from but_last2_rx ''*'' (p, [c]) =
      (if dot c \<and> (case [] of d # e # _ \<Rightarrow> dot d \<and> dot e | _ \<Rightarrow> False) then ''*'' else [c]) @
      replace_from but_last2_rx ''*'' (Some c, [])"
    by (rule replace_from_char [OF ends_but_last2])
  then show ?thesis
    by (simp add: but_last2_Nil)
qed

lemma but_last2_two: "replace_from but_last2_rx ''*'' (p, [c, d]) = [c, d]"
proof -
  have "replace_from but_last2_rx ''*'' (p, [c, d]) =
      (if dot c \<and> (case [d] of d # e # _ \<Rightarrow> dot d \<and> dot e | _ \<Rightarrow> False) then ''*'' else [c]) @
      replace_from but_last2_rx ''*'' (Some c, [d])"
    by (rule replace_from_char [OF ends_but_last2])
  then show ?thesis
    by (simp add: but_last2_one)
qed

lemma replace_but_last2: "replace_from but_last2_rx ''*'' (p, s) = mask_but_last2 s"
proof (induction s arbitrary: p rule: mask_but_last2.induct)
  case (1 c d e r)
  have "replace_from but_last2_rx ''*'' (p, c # d # e # r) =
      (if dot c \<and> (case d # e # r of d # e # _ \<Rightarrow> dot d \<and> dot e | _ \<Rightarrow> False) then ''*'' else [c]) @
      replace_from but_last2_rx ''*'' (Some c, d # e # r)"
    by (rule replace_from_char [OF ends_but_last2])
  then show ?case
    by (simp add: "1.IH")
qed (simp_all add: but_last2_Nil but_last2_one but_last2_two)

subsection \<open>The pattern of the phone masker\<close>

lemma phone_ahead:
  "(ends (seqs [Rep 2 (Some 2) is_digit, WordB]) (Some c, cs) \<noteq> []) =
     (case cs of d # e # r \<Rightarrow> is_digit d \<and> is_digit e \<and> word_end r | _ \<Rightarrow> False)"
proof -
  have "is_word e" if "is_digit e" for e
    using that by (simp add: is_word_def is_alnum_def)
  then show ?thesis
    by (auto simp: ends_exact_step ends_seqs_single last_char_def word_before_def word_after_def
        word_end_def eval_nat_numeral split: list.splits)
qed

lemma ends_phone_mask:
  "ends phone_mask_rx (p, c # cs) =
     (if is_digit c \<and>
         (case cs of d # e # r \<Rightarrow> is_digit d \<and> is_digit e \<and> word_end r | _ \<Rightarrow> False)
      then [(Some c, cs)] else [])"
  by (simp add: phone_mask_rx_def ends_class_ahead phone_ahead)

lemma phone_mask_Nil: "replace_from phone_mask_rx ''*'' (p, []) = []"
  by (simp add: replace_from_Nil phone_mask_rx_def ends_class_ahead_Nil)

lemma phone_mask_one: "replace_from phone_mask_rx ''*'' (p, [c]) = [c]"
proof -
  have "replace_from phone_mask_rx ''*'' (p, [c]) =
      (if is_digit c \<and>
          (case [] of d # e # r \<Rightarrow> is_digit d \<and> is_digit e \<and> word_end r | _ \<Rightarrow> False)
       then ''*'' else [c]) @
      replace_from phone_mask_rx ''*'' (Some c, [])"
    by (rule replace_from_char [OF ends_phone_mask])
  then show ?thesis
    by (simp add: phone_mask_Nil)
qed

lemma phone_mask_two: "replace_from phone_mask_rx ''*'' (p, [c, d]) = [c, d]"
proof -
  have "replace_from phone_mask_rx ''*'' (p, [c, d]) =
      (if is_digit c \<and>
          (case [d] of d # e # r \<Rightarrow> is_digit d \<and> is_digit e \<and> word_end r | _ \<Rightarrow> False)
       then ''*'' else [c]) @
      replace_from phone_mask_rx ''*'' (Some c, [d])"
    by (rule replace_from_char [OF ends_phone_mask])
  then show ?thesis
    by (simp add: phone_mask_one)
qed

lemma replace_phone: "replace_from phone_mask_rx ''*'' (p, s) = mask_phone_chars s"
proof (induction s arbitrary: p rule: mask_phone_chars.induct)
  case (1 c d e r)
  have "replace_from phone_mask_rx ''*'' (p, c # d # e # r) =
      (if is_digit c \<and>
          (case d # e # r of d # e # r \<Rightarrow> is_digit d \<and> is_digit e \<and> word_end r | _ \<Rightarrow> False)
       then ''*'' else [c]) @
      replace_from phone_mask_rx ''*'' (Some c, d # e # r)"
    by (rule replace_from_char [OF ends_phone_mask])
  then show ?case
    by (simp add: "1.IH")
qed (simp_all add: phone_mask_Nil phone_mask_one phone_mask_two)

subsection \<open>The pattern of the domain\<close>

lemma dot_ahead_rx:
  "(ends (seqs [Rep 0 None dot, Class (is_char (CHR ''.''))]) (q, cs) \<noteq> []) = dot_ahead cs"
    (is "?L = ?R")
proof
  assume ?L
  then have "\<exists>x \<in> set (rep 0 None dot (q, cs)). ends (seqs [Class (is_char (CHR ''.''))]) x \<noteq> []"
    unfolding ends_seqs_Cons_nonempty [of "Rep 0 None dot"] by simp
  then obtain x where x: "x \<in> set (rep 0 None dot (q, cs))"
      "ends (seqs [Class (is_char (CHR ''.''))]) x \<noteq> []"
    by blast
  from x(1) have "\<exists>a b. x = (last_char q a, b) \<and> cs = a @ b \<and> list_all dot a"
    unfolding rep_split by simp
  then obtain a b where ab: "x = (last_char q a, b)" "cs = a @ b" "list_all dot a"
    by blast
  from x(2) ab(1) obtain b' where "b = CHR ''.'' # b'"
    by (cases b) (auto simp: ends_class_step is_char_def)
  with ab(2,3) have "takeWhile dot cs = a @ takeWhile dot (CHR ''.'' # b')"
    by (simp add: list_all_iff takeWhile_append2)
  moreover have "dot (CHR ''.'')"
    by (simp add: dot_def is_line_terminator_def code_def)
  ultimately show ?R
    by (simp add: dot_ahead_def)
next
  assume ?R
  then have "CHR ''.'' \<in> set (takeWhile dot cs)"
    by (simp add: dot_ahead_def)
  then obtain a a' where t: "takeWhile dot cs = a @ CHR ''.'' # a'"
    by (meson split_list)
  have "cs = takeWhile dot cs @ dropWhile dot cs"
    by simp
  then have cs: "cs = a @ CHR ''.'' # (a' @ dropWhile dot cs)"
    unfolding t by simp
  have "\<forall>x \<in> set (takeWhile dot cs). dot x"
    by (auto dest: set_takeWhileD)
  then have "list_all dot a"
    unfolding t by (simp add: list_all_iff)
  with cs have "\<exists>a0 b0. (last_char q a, CHR ''.'' # (a' @ dropWhile dot cs)) = (last_char q a0, b0) \<and>
      cs = a0 @ b0 \<and> list_all dot a0"
    by blast
  then have "(last_char q a, CHR ''.'' # (a' @ dropWhile dot cs)) \<in> set (rep 0 None dot (q, cs))"
    unfolding rep_split by simp
  moreover have "ends (seqs [Class (is_char (CHR ''.''))])
      (last_char q a, CHR ''.'' # (a' @ dropWhile dot cs)) \<noteq> []"
    by (simp add: ends_class_step is_char_def ends_seqs_Nil)
  ultimately have "\<exists>x \<in> set (rep 0 None dot (q, cs)).
      ends (seqs [Class (is_char (CHR ''.''))]) x \<noteq> []"
    by blast
  then show ?L
    unfolding ends_seqs_Cons_nonempty [of "Rep 0 None dot"] by simp
qed

lemma ends_domain_rx:
  "ends domain_rx (p, c # cs) =
     (if (case p of None \<Rightarrow> False | Some q \<Rightarrow> dot q) \<and> dot c \<and> dot_ahead cs
      then [(Some c, cs)] else [])"
proof -
  have "ends domain_rx (p, c # cs) =
      concat (map (ends (seqs [Class dot,
          Ahead (seqs [Rep 0 None dot, Class (is_char (CHR ''.''))])]))
        (ends (Behind dot) (p, c # cs)))"
    by (simp add: domain_rx_def seqs_Cons)
  then show ?thesis
    by (cases p) (simp_all add: ends_class_ahead dot_ahead_rx)
qed

lemma ends_domain_rx_Nil: "ends domain_rx (p, []) = []"
  by (cases p) (simp_all add: domain_rx_def seqs_Cons)

lemma replace_domain: "replace_from domain_rx ''*'' (p, s) = mask_domain p s"
proof (induction s arbitrary: p)
  case Nil
  show ?case by (simp add: replace_from_Nil ends_domain_rx_Nil)
next
  case (Cons c cs)
  have "replace_from domain_rx ''*'' (p, c # cs) =
      (if (case p of None \<Rightarrow> False | Some q \<Rightarrow> dot q) \<and> dot c \<and> dot_ahead cs then ''*'' else [c]) @
      replace_from domain_rx ''*'' (Some c, cs)"
    by (rule replace_from_char [OF ends_domain_rx])
  then show ?case
    by (simp add: Cons.IH)
qed

subsection \<open>The pattern of the generic fallback\<close>

lemma ends_generic:
  "ends (Class is_alnum) (p, c # cs) = (if is_alnum c then [(Some c, cs)] else [])"
  by simp

lemma replace_generic:
  "replace_from (Class is_alnum) ''*'' (p, s) = map (\<lambda>c. if is_alnum c then CHR ''*'' else c) s"
proof (induction s arbitrary: p)
  case Nil
  show ?case by (simp add: replace_from_Nil)
next
  case (Cons c cs)
  have "replace_from (Class is_alnum) ''*'' (p, c # cs) =
      (if is_alnum c then ''*'' else [c]) @ replace_from (Class is_alnum) ''*'' (Some c, cs)"
    by (rule replace_from_char [OF ends_generic])
  then show ?case
    by (simp add: Cons.IH)
qed

subsection \<open>The pattern of the SSN masker\<close>

lemma replace_first_Bol: "replace_first_from (seqs (Bol # rs)) sub (Some q, s) = s"
  by (induction s arbitrary: q) (simp_all add: seqs_Cons)

lemma ends_ssn_mask:
  "ends ssn_mask_rx (None, v) =
     (if 6 \<le> length v \<and> list_all is_digit (take 3 v) \<and> v ! 3 = CHR ''-'' \<and>
         list_all is_digit (take 2 (drop 4 v))
      then [(Some (v ! 5), drop 6 v)] else [])"
proof (cases "3 < length v")
  case False
  then show ?thesis
    by (auto simp: ssn_mask_rx_def seqs_Cons seqs_Nil rep_exact)
next
  case True
  then have d: "drop 3 v = v ! 3 # drop 4 v"
    using Cons_nth_drop_Suc [of 3 v] by simp
  have l: "last_char (Some (v ! 3)) (take 2 (drop 4 v)) = Some (v ! 5)" if "6 \<le> length v"
  proof -
    from that have "drop 4 v = v ! 4 # drop 5 v" "drop 5 v = v ! 5 # drop 6 v"
      using Cons_nth_drop_Suc [of 4 v] Cons_nth_drop_Suc [of 5 v] by simp_all
    then have "take 2 (drop 4 v) = [v ! 4, v ! 5]"
      by (simp add: eval_nat_numeral)
    then show ?thesis
      by (simp add: last_char_def)
  qed
  show ?thesis
    using True l
    by (auto simp: ssn_mask_rx_def seqs_Cons seqs_Nil rep_exact d is_char_def)
qed

lemma replace_ssn: "rx_replace ssn_mask_rx ''***-**'' v = mask_ssn_prefix v"
proof (cases v)
  case Nil
  then show ?thesis
    using ends_ssn_mask [of "[]"] by (simp add: rx_replace_def mask_ssn_prefix_def)
next
  case (Cons c cs)
  have "replace_first_from ssn_mask_rx ''***-**'' (Some c, cs) = cs"
    unfolding ssn_mask_rx_def by (rule replace_first_Bol)
  then show ?thesis
    using ends_ssn_mask [of "c # cs"] by (simp add: rx_replace_def mask_ssn_prefix_def Cons)
qed

subsection \<open>The functions of the source, unrolled\<close>

text \<open>Each function of the source that applies a pattern equals the function that unrolls
  the pattern.\<close>

lemma wrapWithLimit_unrolled:
  "wrapWithLimit sql limit =
     (if has_limit sql then sql
      else ''SELECT * FROM ('' @ sql @ '') AS safe_sub LIMIT '' @ show_nat limit)"
  by (simp add: wrapWithLimit_def rx_test_limit)

lemma looksLikeEmail_unrolled: "looksLikeEmail v = email_shape v"
  by (simp add: looksLikeEmail_def rx_test_email)

lemma looksLikePhone_unrolled: "looksLikePhone v = phone_shape v"
  by (simp add: looksLikePhone_def rx_test_phone)

lemma looksLikeSSN_unrolled: "looksLikeSSN v = ssn_shape v"
  by (simp add: looksLikeSSN_def rx_test_ssn)

lemma maskPhone_unrolled: "maskPhone v = mask_phone_chars v"
  by (simp add: maskPhone_def rx_replace_all_def replace_phone)

lemma maskSSN_unrolled: "maskSSN v = mask_ssn_prefix v"
  by (simp add: maskSSN_def replace_ssn)

lemma mask_generic_unrolled:
  "mask_generic v = map (\<lambda>c. if is_alnum c then CHR ''*'' else c) v"
  by (simp add: mask_generic_def rx_replace_all_def replace_generic)

lemma maskEmail_unrolled:
  "maskEmail value =
     (case js_split (CHR ''@'') value of
        u # d # _ \<Rightarrow>
          if d = [] then mask_but_last2 value
          else mask_user u @ ''@'' @ mask_domain None d
      | _ \<Rightarrow> mask_but_last2 value)"
  by (simp add: maskEmail_def rx_replace_all_def replace_but_last2 replace_domain
      split: list.splits)

section \<open>Properties of the row limiter\<close>

declare show_nat.simps [simp del]

lemma is_digit_digit_char: "d < 10 \<Longrightarrow> is_digit (digit_char d)"
  by (simp add: is_digit_def digit_char_def code_def)

lemma show_nat_head: "\<exists>d ds. show_nat n = d # ds \<and> is_digit d"
proof (induction n rule: show_nat.induct)
  case (1 n)
  show ?case
  proof (cases "n < 10")
    case True
    then show ?thesis
      using show_nat.simps [of n] by (simp add: is_digit_digit_char)
  next
    case False
    with 1 obtain d ds where "show_nat (n div 10) = d # ds" "is_digit d"
      by auto
    with False show ?thesis
      using show_nat.simps [of n] by simp
  qed
qed

lemma has_limit_append: "has_limit ys \<Longrightarrow> has_limit (xs @ ys)"
  by (induction xs) auto

lemma has_limit_here: "limit_here s \<Longrightarrow> has_limit s"
  by (cases s) (auto simp: limit_here_def)

lemma limit_here_keyword: "limit_here (''LIMIT '' @ show_nat n)"
proof -
  obtain d ds where h: "show_nat n = d # ds" "is_digit d"
    using show_nat_head by blast
  have "strip_ci ''limit'' (''LIMIT '' @ show_nat n) = Some ('' '' @ show_nat n)"
    by (simp add: code_def)
  moreover have "is_space (CHR '' '')"
    by (simp add: is_space_def code_def)
  ultimately show ?thesis
    using h by (simp add: limit_here_def digit_not_space)
qed

lemma has_limit_wrapWithLimit: "has_limit (wrapWithLimit sql n)"
proof (cases "has_limit sql")
  case True
  then show ?thesis by (simp add: wrapWithLimit_unrolled)
next
  case False
  have "has_limit ((''SELECT * FROM ('' @ sql @ '') AS safe_sub '') @ ''LIMIT '' @ show_nat n)"
    by (intro has_limit_append has_limit_here limit_here_keyword)
  with False show ?thesis by (simp add: wrapWithLimit_unrolled)
qed

text \<open>
  Claim C7. Applying the row-cap rewrite to a statement that was already rewritten
  gives back that statement, whatever cap the second application is given: the text, and
  so the bound it enforces, is that of a single application. Where the first application
  wrapped the statement, the text after both is still the wrapper whose outer bound is
  the configured cap.
\<close>

theorem wrapWithLimit_idempotent:
  "wrapWithLimit (wrapWithLimit sql cap) cap' = wrapWithLimit sql cap \<and>
   wrapWithLimit (wrapWithLimit sql cap) cap' =
     (if rx_test limit_rx sql then sql
      else ''SELECT * FROM ('' @ sql @ '') AS safe_sub LIMIT '' @ show_nat cap)"
  using has_limit_wrapWithLimit [of sql cap] wrapWithLimit_unrolled [of "wrapWithLimit sql cap" cap']
  by (simp add: wrapWithLimit_unrolled rx_test_limit)

theorem wrapWithLimit_idempotent_witness:
  "wrapWithLimit (wrapWithLimit ''SELECT id, email FROM safe_users_v'' 200) 500 =
     ''SELECT * FROM (SELECT id, email FROM safe_users_v) AS safe_sub LIMIT 200''"
proof -
  have h1: "rx_test limit_rx ''SELECT id, email FROM safe_users_v'' = False"
    by (simp add: rx_test_limit limit_here_def code_def)
  have h2: "show_nat 200 = ''200''"
    by code_simp
  have "wrapWithLimit (wrapWithLimit ''SELECT id, email FROM safe_users_v'' 200) 500 =
      (if rx_test limit_rx ''SELECT id, email FROM safe_users_v'' then ''SELECT id, email FROM safe_users_v''
       else ''SELECT * FROM ('' @ ''SELECT id, email FROM safe_users_v'' @
            '') AS safe_sub LIMIT '' @ show_nat 200)"
    using wrapWithLimit_idempotent [of "''SELECT id, email FROM safe_users_v''" 200 500]
    by (rule conjunct2)
  then show ?thesis
    by (simp only: h1 h2 if_False) simp
qed

text \<open>
  Claim C3. \<^verbatim>\<open>wrapWithLimit\<close> is to return a statement unchanged exactly when the
  statement has an explicit bound at its top level. The statement below has its only
  \<^verbatim>\<open>LIMIT\<close> inside a parenthesised subquery: read outside the parentheses it has no
  bound, and the code returns it unchanged all the same, so no cap of 200 is added.
\<close>

theorem wrapWithLimit_trusts_nested_limit:
  "wrapWithLimit
     ''SELECT id FROM safe_users_v WHERE id NOT IN (SELECT id FROM safe_users_v LIMIT 1)'' 200 =
     ''SELECT id FROM safe_users_v WHERE id NOT IN (SELECT id FROM safe_users_v LIMIT 1)'' \<and>
   top_level 0
     ''SELECT id FROM safe_users_v WHERE id NOT IN (SELECT id FROM safe_users_v LIMIT 1)'' =
     ''SELECT id FROM safe_users_v WHERE id NOT IN '' \<and>
   \<not> rx_test limit_rx (top_level 0
     ''SELECT id FROM safe_users_v WHERE id NOT IN (SELECT id FROM safe_users_v LIMIT 1)'')"
  by code_simp

lemma wrapWithLimit_wraps:
  "\<not> rx_test limit_rx sql \<Longrightarrow>
   wrapWithLimit sql cap = ''SELECT * FROM ('' @ sql @ '') AS safe_sub LIMIT '' @ show_nat cap"
  by (simp add: wrapWithLimit_def)

section \<open>Properties of the statement validator\<close>

lemma assertSelectOnly_calls: "fst (assertSelectOnly env cfg sql) = [Astify sql]"
  by (simp add: assertSelectOnly_def io_bind_def io_call_def io_throw_def io_return_def
      split: sum.splits ast.splits)

text \<open>
  Claim C1. When the parser reads more than one top-level statement in the (trimmed)
  text, \<^verbatim>\<open>assertSelectOnly\<close> fails with the error \<open>Only one statement allowed.\<close>, and both
  tools end there: the only call they have made is the one to the parser, so neither
  the table list of the whitelist check nor any call to a database has run.
\<close>

theorem multiple_statements_rejected:
  assumes "astify env (dialectName cfg) (trim input) = Inr (AstArray stmts)"
    and "1 < length stmts"
  shows "assertSelectOnly env cfg (trim input) =
           ([Astify (trim input)], Inl (JsError ''Only one statement allowed.'')) \<and>
         sql_query env cfg input =
           ([Astify (trim input)], Inl (JsError ''Only one statement allowed.'')) \<and>
         sql_explain_safe env cfg input =
           ([Astify (trim input)], Inl (JsError ''Only one statement allowed.''))"
  using assms(1)
  by (simp add: sql_query_def sql_explain_safe_def assertSelectOnly_def io_bind_def io_call_def
      io_throw_def)

theorem multiple_statements_rejected_witness:
  "assertSelectOnly collab_two_statements sqlite_cfg ''SELECT * FROM users; DROP TABLE users;'' =
     ([Astify ''SELECT * FROM users; DROP TABLE users;''],
      Inl (JsError ''Only one statement allowed.'')) \<and>
   sql_query collab_two_statements sqlite_cfg '' SELECT * FROM users; DROP TABLE users; '' =
     ([Astify ''SELECT * FROM users; DROP TABLE users;''],
      Inl (JsError ''Only one statement allowed.'')) \<and>
   sql_explain_safe collab_two_statements sqlite_cfg '' SELECT * FROM users; DROP TABLE users; '' =
     ([Astify ''SELECT * FROM users; DROP TABLE users;''],
      Inl (JsError ''Only one statement allowed.''))"
proof -
  have t: "trim '' SELECT * FROM users; DROP TABLE users; '' =
      ''SELECT * FROM users; DROP TABLE users;''"
    by (simp add: trim_def is_space_def code_def)
  have a: "astify collab_two_statements (dialectName sqlite_cfg)
      (trim '' SELECT * FROM users; DROP TABLE users; '') =
      Inr (AstArray [Stmt (Some ''select''), Stmt (Some ''drop'')])"
    by (simp add: collab_two_statements_def collab_ok_def)
  have b: "1 < length [Stmt (Some ''select''), Stmt (Some ''drop'')]"
    by simp
  show ?thesis
    using multiple_statements_rejected [OF a b] unfolding t .
qed

section \<open>Properties of the whitelist check\<close>

subsection \<open>Reading an entry of the table list\<close>










text \<open>An entry that gives no name is dropped.\<close>

lemma tablesUsed_drops_empty:
  "tablesUsed (collab_ok \<lparr>tableList := (\<lambda>d s. Inr [[], ''select::null::safe_users_v''])\<rparr>)
     sqlite_cfg ''SELECT 1'' =
   ([TableList ''SELECT 1''], Inr [''safe_users_v''])"
  by code_simp

subsection \<open>The loop over the used names\<close>






lemma check_names_calls: "check_names allowed names = (t, r) \<Longrightarrow> t = []"
  by (induction names) (auto simp: io_return_def io_throw_def split: if_splits)

lemma assertWhitelisted_calls: "fst (assertWhitelisted env cfg sql) = [TableList sql]"
  by (auto simp: assertWhitelisted_def tablesUsed_def io_bind_def io_call_def io_return_def
      split: sum.splits prod.splits dest: check_names_calls)


subsection \<open>The check\<close>




section \<open>Properties of the maskers\<close>

subsection \<open>Phone masker\<close>

lemma mask_phone_chars_length: "length (mask_phone_chars s) = length s"
  by (induction s rule: mask_phone_chars.induct) auto

lemma maskPhone_length: "length (maskPhone s) = length s"
  by (simp add: maskPhone_unrolled mask_phone_chars_length)

text \<open>The phone masker changes digits only, each into an asterisk; every other
  character keeps its value and its position.\<close>

lemma mask_phone_chars_nth:
  "i < length s \<Longrightarrow>
   mask_phone_chars s ! i = s ! i \<or> (is_digit (s ! i) \<and> mask_phone_chars s ! i = CHR ''*'')"
proof (induction s arbitrary: i rule: mask_phone_chars.induct)
  case (1 c d e r)
  then show ?case by (cases i) auto
qed auto

lemma maskPhone_nth:
  "i < length s \<Longrightarrow>
   maskPhone s ! i = s ! i \<or> (is_digit (s ! i) \<and> maskPhone s ! i = CHR ''*'')"
  by (simp add: maskPhone_unrolled mask_phone_chars_nth)

text \<open>
  Claim C4. The phone masker is to mask every digit except the last two. On
  \<open>555-123-4567\<close>, a value that only the phone pattern matches, the code masks three
  digits and keeps seven: a digit is replaced only when exactly two digits and then a
  word boundary follow it. The reading of the specification masks eight.
\<close>

theorem maskPhone_keeps_more_digits:
  "\<not> looksLikeEmail ''555-123-4567'' \<and> \<not> looksLikeSSN ''555-123-4567'' \<and>
   looksLikePhone ''555-123-4567'' \<and>
   maskValue ''phone'' (JString ''555-123-4567'') = (JString ''*55-*23-4*67'' :: nat js_value) \<and>
   spec_mask_phone ''555-123-4567'' = ''***-***-**67''"
  by code_simp

subsection \<open>Email masker\<close>

lemma split_char_no_sep: "sep \<notin> set s \<Longrightarrow> split_char sep acc s = [acc @ s]"
  by (induction s arbitrary: acc) auto

lemma split_char_sep:
  "sep \<notin> set u \<Longrightarrow> split_char sep acc (u @ sep # d) = (acc @ u) # split_char sep [] d"
  by (induction u arbitrary: acc) auto

lemma js_split_two:
  "sep \<notin> set u \<Longrightarrow> sep \<notin> set d \<Longrightarrow> js_split sep (u @ sep # d) = [u, d]"
  by (simp add: js_split_def split_char_sep split_char_no_sep)

lemma looksLikeEmail_parts:
  assumes "looksLikeEmail v"
  shows "\<exists>u d. v = u @ CHR ''@'' # d \<and> u \<noteq> [] \<and> list_all is_atext u \<and> list_all is_atext d \<and>
           CHR ''.'' \<in> set (butlast (tl d))"
proof -
  from assms obtain c d where dw: "dropWhile is_atext v = c # d"
    by (cases "dropWhile is_atext v") (auto simp: looksLikeEmail_unrolled email_shape_def)
  with assms have h: "takeWhile is_atext v \<noteq> []" "c = CHR ''@''" "list_all is_atext d"
      "CHR ''.'' \<in> set (butlast (tl d))"
    by (auto simp: looksLikeEmail_unrolled email_shape_def)
  have "v = takeWhile is_atext v @ dropWhile is_atext v"
    by simp
  with dw h(2) have "v = takeWhile is_atext v @ CHR ''@'' # d"
    by simp
  moreover have "list_all is_atext (takeWhile is_atext v)"
    by (auto simp: list_all_iff dest: set_takeWhileD)
  ultimately show ?thesis
    using h by blast
qed

lemma atext_dot: "is_atext c \<Longrightarrow> dot c"
  by (auto simp: is_atext_def dot_def is_space_def is_line_terminator_def)

lemma atext_not_at: "list_all is_atext u \<Longrightarrow> CHR ''@'' \<notin> set u"
  by (auto simp: list_all_iff is_atext_def)

lemma dot_ahead_none: "CHR ''.'' \<notin> set t \<Longrightarrow> \<not> dot_ahead t"
  by (auto simp: dot_ahead_def dest: set_takeWhileD)

lemma mask_domain_no_dot: "CHR ''.'' \<notin> set t \<Longrightarrow> mask_domain prev t = t"
  by (induction t arbitrary: prev) (auto simp: dot_ahead_none)

lemma dot_full_stop: "dot (CHR ''.'')"
  by (simp add: dot_def is_line_terminator_def code_def)

lemma dot_ahead_label: "list_all dot l \<Longrightarrow> dot_ahead (l @ CHR ''.'' # t)"
  by (simp add: dot_ahead_def list_all_iff takeWhile_append2 dot_full_stop)

lemma mask_domain_label:
  "list_all dot l \<Longrightarrow> dot p \<Longrightarrow> CHR ''.'' \<notin> set t \<Longrightarrow>
   mask_domain (Some p) (l @ CHR ''.'' # t) = stars (length l) @ CHR ''.'' # t"
proof (induction l arbitrary: p)
  case Nil
  then show ?case
    by (simp add: dot_ahead_none mask_domain_no_dot stars_def)
next
  case (Cons c l)
  then show ?case
    using dot_ahead_label [of l t] by (simp add: stars_def)
qed

lemma mask_domain_first:
  assumes "l \<noteq> []" "list_all dot l" "CHR ''.'' \<notin> set t"
  shows "mask_domain None (l @ CHR ''.'' # t) = hd l # stars (length l - 1) @ CHR ''.'' # t"
proof -
  from assms(1) obtain c l' where l: "l = c # l'"
    by (cases l) auto
  with assms show ?thesis
    using mask_domain_label [of l' c t] by simp
qed

lemma last_dot:
  assumes "CHR ''.'' \<in> set (butlast (tl d))"
  shows "\<exists>l t. d = l @ CHR ''.'' # t \<and> l \<noteq> [] \<and> CHR ''.'' \<notin> set t"
proof -
  from assms have in_tl: "CHR ''.'' \<in> set (tl d)"
    by (meson in_set_butlastD)
  then have "CHR ''.'' \<in> set d"
    by (cases d) auto
  then obtain l t where lt: "d = l @ CHR ''.'' # t" "CHR ''.'' \<notin> set t"
    using split_list_last by fastforce
  have "l \<noteq> []"
  proof
    assume "l = []"
    with lt in_tl show False by simp
  qed
  with lt show ?thesis by blast
qed

text \<open>
  The email masker against the reading of the specification: on \<open>john.doe@example.com\<close>
  the code keeps the first character of the domain, and on \<open>a@mail.example.com\<close> it masks
  the dot between \<open>mail\<close> and \<open>example\<close>; the reading masks the whole of every label but
  the last and keeps every dot.
\<close>

theorem maskEmail_domain_counterexample:
  "looksLikeEmail ''john.doe@example.com'' \<and>
   maskEmail ''john.doe@example.com'' = ''j******e@e******.com'' \<and>
   mask_user ''john.doe'' @ ''@'' @ spec_mask_domain ''example.com'' = ''j******e@*******.com'' \<and>
   maskEmail ''john.doe@example.com'' \<noteq>
     mask_user ''john.doe'' @ ''@'' @ spec_mask_domain ''example.com'' \<and>
   looksLikeEmail ''a@mail.example.com'' \<and>
   maskEmail ''a@mail.example.com'' = ''*@m***********.com'' \<and>
   mask_user ''a'' @ ''@'' @ spec_mask_domain ''mail.example.com'' = ''*@****.*******.com''"
  by code_simp

text \<open>
  Claim C5, as amended. A value that matches the email pattern is a local part \<open>u\<close>, an
  \<^verbatim>\<open>@\<close>, and a domain \<open>l.t\<close> whose final label \<open>t\<close> holds no dot. The email masker keeps the
  first and the last character of the local part and masks all between them (a local
  part of one or two characters is masked whole). Of the domain it keeps the first
  character, masks every other character before the last dot, the earlier dots among
  them, and keeps the last dot and the final label.
\<close>

theorem maskEmail_shape:
  assumes "looksLikeEmail v"
  shows "\<exists>u l t. v = u @ ''@'' @ l @ ''.'' @ t \<and>
           u \<noteq> [] \<and> CHR ''@'' \<notin> set u \<and> l \<noteq> [] \<and> CHR ''.'' \<notin> set t \<and>
           maskEmail v =
             (if length u \<le> 2 then stars (length u)
              else [hd u] @ stars (length u - 2) @ [last u]) @
             ''@'' @ [hd l] @ stars (length l - 1) @ ''.'' @ t"
proof -
  from looksLikeEmail_parts [OF assms] obtain u d where
    ud: "v = u @ CHR ''@'' # d" "u \<noteq> []" "list_all is_atext u" "list_all is_atext d"
      "CHR ''.'' \<in> set (butlast (tl d))"
    by blast
  from last_dot [OF ud(5)] obtain l t where
    lt: "d = l @ CHR ''.'' # t" "l \<noteq> []" "CHR ''.'' \<notin> set t"
    by blast
  have split: "js_split (CHR ''@'') v = [u, d]"
    unfolding ud(1) using ud(3,4) by (intro js_split_two atext_not_at)
  have "list_all dot l"
    using ud(4) lt(1) by (auto simp: list_all_iff atext_dot)
  then have dom: "mask_domain None d = hd l # stars (length l - 1) @ CHR ''.'' # t"
    unfolding lt(1) using lt(2,3) by (intro mask_domain_first)
  have user: "mask_user u =
      (if length u \<le> 2 then stars (length u) else [hd u] @ stars (length u - 2) @ [last u])"
    using ud(2) by (simp add: mask_user_def hd_conv_nth last_conv_nth)
  have "maskEmail v = mask_user u @ ''@'' @ mask_domain None d"
    using lt(1) by (simp add: maskEmail_unrolled split)
  with dom user have "maskEmail v =
      (if length u \<le> 2 then stars (length u) else [hd u] @ stars (length u - 2) @ [last u]) @
      ''@'' @ [hd l] @ stars (length l - 1) @ ''.'' @ t"
    by simp
  moreover have "v = u @ ''@'' @ l @ ''.'' @ t"
    using ud(1) lt(1) by simp
  ultimately show ?thesis
    using ud(2) lt(2,3) atext_not_at [OF ud(3)] by blast
qed

theorem maskEmail_shape_witness:
  "looksLikeEmail ''john.doe@example.com'' \<and>
   (\<exists>u l t. ''john.doe@example.com'' = u @ ''@'' @ l @ ''.'' @ t \<and>
      u \<noteq> [] \<and> CHR ''@'' \<notin> set u \<and> l \<noteq> [] \<and> CHR ''.'' \<notin> set t \<and>
      maskEmail ''john.doe@example.com'' =
        (if length u \<le> 2 then stars (length u)
         else [hd u] @ stars (length u - 2) @ [last u]) @
        ''@'' @ [hd l] @ stars (length l - 1) @ ''.'' @ t)"
proof -
  have h: "looksLikeEmail ''john.doe@example.com''"
    by code_simp
  show ?thesis
    using h maskEmail_shape [OF h] by blast
qed

subsection \<open>Choice of the masker\<close>

lemma digit_atext: "is_digit c \<Longrightarrow> is_atext c"
  by (auto simp: is_digit_def is_atext_def is_space_def code_def)

lemma hyphen_atext: "is_atext (CHR ''-'')"
  by (simp add: is_atext_def is_space_def code_def)

lemma ssn_all_atext:
  assumes "looksLikeSSN v"
  shows "list_all is_atext v"
proof -
  from assms have len: "length v = 11"
    by (simp add: looksLikeSSN_unrolled ssn_shape_def)
  then obtain a b c x d e y f g h i where v: "v = [a, b, c, x, d, e, y, f, g, h, i]"
    by (auto simp: eval_nat_numeral length_Suc_conv)
  with assms show ?thesis
    by (simp add: looksLikeSSN_unrolled ssn_shape_def digit_atext hyphen_atext)
qed

text \<open>A value of the SSN shape holds no \<^verbatim>\<open>@\<close>, so the email pattern and the SSN pattern
  never match the same value, and the order in which the two are tried makes no
  difference.\<close>

lemma ssn_not_email: "looksLikeSSN v \<Longrightarrow> \<not> looksLikeEmail v"
proof -
  assume "looksLikeSSN v"
  then have "list_all is_atext v"
    by (rule ssn_all_atext)
  then have dw: "dropWhile is_atext v = []"
    by (simp add: list_all_iff)
  show ?thesis
    unfolding looksLikeEmail_unrolled email_shape_def dw by simp
qed

text \<open>
  Claim C6. On a string value \<^verbatim>\<open>maskValue\<close> returns what the reading of the specification
  returns: the value itself when no signal fires, and otherwise the result of the one
  masker chosen in the order SSN, email, phone, generic fallback. The column \<open>notes\<close>
  gives no name signal, and the value \<open>987-65-4321\<close> in it is masked to \<open>***-**-4321\<close>.
\<close>

theorem maskValue_priority:
  "maskValue col (JString s) = JString (mask_by_spec_priority col s) \<and>
   \<not> shouldMaskByColumn ''notes'' \<and>
   maskValue ''notes'' (JString ''987-65-4321'') = JString ''***-**-4321''"
proof -
  have "maskValue col (JString s) = JString (mask_by_spec_priority col s)"
    using ssn_not_email [of s] by (auto simp: maskValue_def mask_by_spec_priority_def)
  moreover have "\<not> shouldMaskByColumn ''notes''"
    by (simp add: shouldMaskByColumn_def toLowerCase_def lower_char_def code_def)
  moreover have "maskValue ''notes'' (JString ''987-65-4321'') = JString ''***-**-4321''"
  proof -
    have "looksLikeSSN ''987-65-4321''"
      by (simp add: looksLikeSSN_unrolled ssn_shape_def is_digit_def code_def)
    moreover have "maskSSN ''987-65-4321'' = ''***-**-4321''"
      by (simp add: maskSSN_unrolled mask_ssn_prefix_def is_digit_def code_def)
    ultimately show ?thesis
      using ssn_not_email [of "''987-65-4321''"] by (simp add: maskValue_def)
  qed
  ultimately show ?thesis
    by simp
qed

theorem maskValue_priority_witness:
  "maskValue ''Email'' (JString ''john.doe@example.com'') =
     JString (mask_by_spec_priority ''Email'' ''john.doe@example.com'') \<and>
   mask_by_spec_priority ''Email'' ''john.doe@example.com'' = ''j******e@e******.com''"
proof -
  have "mask_by_spec_priority ''Email'' ''john.doe@example.com'' = ''j******e@e******.com''"
    by code_simp
  then show ?thesis
    using maskValue_priority [of "''Email''" "''john.doe@example.com''"] by blast
qed

section \<open>Properties of the result rows\<close>

lemma insert_index_last:
  "\<forall>k' \<in> set (map fst ob). \<exists>j. array_index k' = Some j \<and> j < i \<Longrightarrow>
   insert_index i k v ob = ob @ [(k, v)]"
  by (induction ob) auto

text \<open>A key that is new to an object, and that may stand after all its keys in the
  order of own properties, is put last.\<close>

lemma obj_set_fresh_last:
  assumes "sorted_wrt key_before (map fst ob @ [k])"
    and "k \<notin> set (map fst ob)"
    and "k \<noteq> ''__proto__''"
  shows "obj_set ob k v = ob @ [(k, v)]"
proof (cases "array_index k")
  case None
  with assms(2,3) show ?thesis by (simp add: obj_set_def)
next
  case (Some i)
  from assms(1) have "\<forall>x \<in> set (map fst ob). key_before x k"
    by (simp add: sorted_wrt_append)
  with Some have "\<forall>x \<in> set (map fst ob). \<exists>j. array_index x = Some j \<and> j < i"
    by (auto simp: key_before_def split: option.splits)
  then have "insert_index i k v ob = ob @ [(k, v)]"
    by (rule insert_index_last)
  with Some assms(2,3) show ?thesis by (simp add: obj_set_def)
qed

lemma fold_obj_set:
  assumes "sorted_wrt key_before (map fst (acc @ r))"
    and "distinct (map fst (acc @ r))"
    and "''__proto__'' \<notin> set (map fst r)"
  shows "fold (\<lambda>(k, v) out. obj_set out k (f k v)) r (map (\<lambda>(k, v). (k, f k v)) acc) =
         map (\<lambda>(k, v). (k, f k v)) (acc @ r)"
  using assms
proof (induction r arbitrary: acc)
  case Nil
  then show ?case by simp
next
  case (Cons kv r)
  obtain k v where kv: "kv = (k, v)" by (cases kv)
  let ?g = "\<lambda>(k, v). (k, f k v)"
  have keys: "map fst (map ?g acc) = map fst acc"
    by (induction acc) auto
  have s1: "sorted_wrt key_before (map fst acc @ [k])"
    using Cons.prems(1) by (simp add: kv sorted_wrt_append)
  have s2: "k \<notin> set (map fst acc)"
    using Cons.prems(2) by (auto simp: kv)
  have s3: "k \<noteq> ''__proto__''"
    using Cons.prems(3) by (auto simp: kv)
  have step: "obj_set (map ?g acc) k (f k v) = map ?g acc @ [(k, f k v)]"
  proof (rule obj_set_fresh_last)
    show "sorted_wrt key_before (map fst (map ?g acc) @ [k])"
      unfolding keys by (rule s1)
    show "k \<notin> set (map fst (map ?g acc))"
      unfolding keys by (rule s2)
    show "k \<noteq> ''__proto__''"
      by (rule s3)
  qed
  have "fold (\<lambda>(k, v) out. obj_set out k (f k v)) r (map ?g (acc @ [(k, v)])) =
        map ?g ((acc @ [(k, v)]) @ r)"
    using Cons.prems by (intro Cons.IH) (auto simp: kv)
  with step show ?case by (simp add: kv)
qed

text \<open>On a row that is an object, masking works entry by entry.\<close>

lemma maskRow_entries:
  "own_properties r \<Longrightarrow> maskRow r = map (\<lambda>(k, v). (k, maskValue k v)) r"
  using fold_obj_set [of "[]" r maskValue]
  by (simp add: own_properties_def maskRow_def)

lemma maskRow_keys: "own_properties r \<Longrightarrow> map fst (maskRow r) = map fst r"
  by (simp add: maskRow_entries) (induction r, auto)

text \<open>Masking gives one row for each row, in their order; and on a row that is an object
  it keeps the keys in their order.\<close>

lemma maskRows_length: "length (maskRows rws) = length rws"
  by (simp add: maskRows_def)

lemma maskRows_nth: "i < length rws \<Longrightarrow> maskRows rws ! i = maskRow (rws ! i)"
  by (simp add: maskRows_def)

lemma map_snd_entries:
  "map snd (map (\<lambda>(k, v). (k, f k v)) row) = map (\<lambda>(k, v). f k v) row"
  by (induction row) auto

text \<open>
  What \<^verbatim>\<open>sql.query\<close> returns when it succeeds: the execution step has delivered rows for
  the statement with its row cap, and the answer is the one JSON item made of these
  rows, masked, and their number.
\<close>

lemma sql_query_success:
  assumes "snd (sql_query env cfg input) = Inr items"
  shows "\<exists>r. (DB_TYPE cfg = ''sqlite'' \<and>
               sqlite_all env (wrapWithLimit (trim input) (MAX_ROWS cfg)) = Inr r \<or>
             DB_TYPE cfg = ''postgres'' \<and>
               pg_query env (wrapWithLimit (trim input) (MAX_ROWS cfg)) = Inr r) \<and>
             items = [JsonContent \<lparr>rows = maskRows (or_empty r),
                                  rowsReturned = length (maskRows (or_empty r))\<rparr>]"
proof -
  obtain t1 where a: "assertSelectOnly env cfg (trim input) = (t1, Inr ())"
    using assms
    by (cases "assertSelectOnly env cfg (trim input)")
      (auto simp: sql_query_def io_bind_def Let_def split: sum.splits)
  obtain t2 where b: "assertWhitelisted env cfg (trim input) = (t2, Inr ())"
    using assms a
    by (cases "assertWhitelisted env cfg (trim input)")
      (auto simp: sql_query_def io_bind_def Let_def split: sum.splits)
  let ?safe = "wrapWithLimit (trim input) (MAX_ROWS cfg)"
  consider (sqlite) "DB_TYPE cfg = ''sqlite''"
    | (postgres) "DB_TYPE cfg \<noteq> ''sqlite''" "DB_TYPE cfg = ''postgres''"
    | (other) "DB_TYPE cfg \<noteq> ''sqlite''" "DB_TYPE cfg \<noteq> ''postgres''"
    by blast
  then show ?thesis
  proof cases
    case sqlite
    with assms a b show ?thesis
      by (cases "sqlite_all env ?safe")
        (auto simp: sql_query_def io_bind_def io_call_def io_return_def Let_def)
  next
    case postgres
    with assms a b show ?thesis
      by (cases "pg_query env ?safe")
        (auto simp: sql_query_def io_bind_def io_call_def io_return_def withPgClient_def
          io_finally_def of_failure_def Let_def split: option.splits)
  next
    case other
    with assms a b show ?thesis
      by (simp add: sql_query_def io_bind_def io_throw_def Let_def)
  qed
qed

text \<open>Conversely, when both checks pass and the execution step delivers rows, \<^verbatim>\<open>sql.query\<close>
  succeeds with that item.\<close>

lemma sql_query_sqlite_answer:
  assumes "DB_TYPE cfg = ''sqlite''"
    and "snd (assertSelectOnly env cfg (trim input)) = Inr ()"
    and "snd (assertWhitelisted env cfg (trim input)) = Inr ()"
    and "sqlite_all env (wrapWithLimit (trim input) (MAX_ROWS cfg)) = Inr r"
  shows "snd (sql_query env cfg input) =
           Inr [JsonContent \<lparr>rows = maskRows (or_empty r), rowsReturned = length (or_empty r)\<rparr>]"
proof -
  from assms(2) have a: "assertSelectOnly env cfg (trim input) = ([Astify (trim input)], Inr ())"
    using assertSelectOnly_calls [of env cfg "trim input"]
    by (cases "assertSelectOnly env cfg (trim input)") simp
  from assms(3) have b: "assertWhitelisted env cfg (trim input) = ([TableList (trim input)], Inr ())"
    using assertWhitelisted_calls [of env cfg "trim input"]
    by (cases "assertWhitelisted env cfg (trim input)") simp
  show ?thesis
    using assms(1,4)
    by (simp add: sql_query_def a b io_bind_def io_call_def io_return_def Let_def
        maskRows_length)
qed

lemma sql_query_postgres_answer:
  assumes "DB_TYPE cfg = ''postgres''"
    and "snd (assertSelectOnly env cfg (trim input)) = Inr ()"
    and "snd (assertWhitelisted env cfg (trim input)) = Inr ()"
    and "pg_connect env = None" and "pg_end env = None"
    and "pg_query env (wrapWithLimit (trim input) (MAX_ROWS cfg)) = Inr r"
  shows "snd (sql_query env cfg input) =
           Inr [JsonContent \<lparr>rows = maskRows (or_empty r), rowsReturned = length (or_empty r)\<rparr>]"
proof -
  from assms(2) have a: "assertSelectOnly env cfg (trim input) = ([Astify (trim input)], Inr ())"
    using assertSelectOnly_calls [of env cfg "trim input"]
    by (cases "assertSelectOnly env cfg (trim input)") simp
  from assms(3) have b: "assertWhitelisted env cfg (trim input) = ([TableList (trim input)], Inr ())"
    using assertWhitelisted_calls [of env cfg "trim input"]
    by (cases "assertWhitelisted env cfg (trim input)") simp
  show ?thesis
    using assms(1,4,5,6)
    by (simp add: sql_query_def a b io_bind_def io_call_def io_return_def Let_def
        withPgClient_def io_finally_def of_failure_def maskRows_length)
qed

text \<open>
  Claim C10. When \<^verbatim>\<open>sql.query\<close> succeeds, the execution step has delivered rows \<open>r\<close> (on the
  backend that is configured, for the statement with its row cap), and the answer is
  one JSON item whose \<^verbatim>\<open>rows\<close> are the masked rows \<^verbatim>\<open>r || []\<close> and whose \<^verbatim>\<open>rowsReturned\<close> is the
  length of its \<^verbatim>\<open>rows\<close>, which is the number of rows delivered. And for every list of rows
  \<open>rws\<close>: \<^verbatim>\<open>maskRows\<close> returns as many rows as it is given, and the row at each position is
  the masked row of that position; when that row is an object (its keys distinct, in
  the order of own properties, no own \<^verbatim>\<open>__proto__\<close>), the masked row has the same keys in
  the same order, each with the masked value of its entry.
\<close>

theorem query_result_shape:
  "(snd (sql_query env cfg input) = Inr items \<longrightarrow>
      (\<exists>r q. (DB_TYPE cfg = ''sqlite'' \<and>
                 sqlite_all env (wrapWithLimit (trim input) (MAX_ROWS cfg)) = Inr r \<or>
               DB_TYPE cfg = ''postgres'' \<and>
                 pg_query env (wrapWithLimit (trim input) (MAX_ROWS cfg)) = Inr r) \<and>
             items = [JsonContent q] \<and>
             rows q = maskRows (or_empty r) \<and>
             rowsReturned q = length (rows q) \<and>
             length (rows q) = length (or_empty r))) \<and>
   length (maskRows rws) = length rws \<and>
   (\<forall>i < length rws.
      maskRows rws ! i = maskRow (rws ! i) \<and>
      (own_properties (rws ! i) \<longrightarrow>
         map fst (maskRows rws ! i) = map fst (rws ! i) \<and>
         map snd (maskRows rws ! i) = map (\<lambda>(k, v). maskValue k v) (rws ! i)))"
proof (intro conjI impI allI)
  assume "snd (sql_query env cfg input) = Inr items"
  then obtain r where
    r: "DB_TYPE cfg = ''sqlite'' \<and>
          sqlite_all env (wrapWithLimit (trim input) (MAX_ROWS cfg)) = Inr r \<or>
        DB_TYPE cfg = ''postgres'' \<and>
          pg_query env (wrapWithLimit (trim input) (MAX_ROWS cfg)) = Inr r"
    and items: "items = [JsonContent \<lparr>rows = maskRows (or_empty r),
                                     rowsReturned = length (maskRows (or_empty r))\<rparr>]"
    using sql_query_success by blast
  let ?q = "\<lparr>rows = maskRows (or_empty r), rowsReturned = length (maskRows (or_empty r))\<rparr>"
  have "items = [JsonContent ?q]" "rows ?q = maskRows (or_empty r)"
    "rowsReturned ?q = length (rows ?q)" "length (rows ?q) = length (or_empty r)"
    using items by (simp_all add: maskRows_length)
  with r show "\<exists>r q. (DB_TYPE cfg = ''sqlite'' \<and>
                 sqlite_all env (wrapWithLimit (trim input) (MAX_ROWS cfg)) = Inr r \<or>
               DB_TYPE cfg = ''postgres'' \<and>
                 pg_query env (wrapWithLimit (trim input) (MAX_ROWS cfg)) = Inr r) \<and>
             items = [JsonContent q] \<and>
             rows q = maskRows (or_empty r) \<and>
             rowsReturned q = length (rows q) \<and>
             length (rows q) = length (or_empty r)"
    by blast
next
  show "length (maskRows rws) = length rws"
    by (rule maskRows_length)
next
  fix i
  assume "i < length rws"
  then show "maskRows rws ! i = maskRow (rws ! i)"
    by (rule maskRows_nth)
next
  fix i
  assume "i < length rws" and "own_properties (rws ! i)"
  then show "map fst (maskRows rws ! i) = map fst (rws ! i)"
    by (simp add: maskRows_nth maskRow_keys)
next
  fix i
  assume "i < length rws" and "own_properties (rws ! i)"
  then show "map snd (maskRows rws ! i) = map (\<lambda>(k, v). maskValue k v) (rws ! i)"
    by (simp add: maskRows_nth maskRow_entries map_snd_entries del: map_map)
qed

theorem query_result_shape_witness:
  "sql_query collab_three_rows sqlite_cfg ''SELECT * FROM safe_users_v'' =
     ([Astify ''SELECT * FROM safe_users_v'',
       TableList ''SELECT * FROM safe_users_v'',
       SqliteOpen,
       SqliteAll ''SELECT * FROM (SELECT * FROM safe_users_v) AS safe_sub LIMIT 200'',
       SqliteClose],
      Inr [JsonContent \<lparr>rows = masked_sample_rows, rowsReturned = 3\<rparr>]) \<and>
   (\<exists>r q. (DB_TYPE sqlite_cfg = ''sqlite'' \<and>
              sqlite_all collab_three_rows
                (wrapWithLimit (trim ''SELECT * FROM safe_users_v'') (MAX_ROWS sqlite_cfg)) =
                Inr r \<or>
            DB_TYPE sqlite_cfg = ''postgres'' \<and>
              pg_query collab_three_rows
                (wrapWithLimit (trim ''SELECT * FROM safe_users_v'') (MAX_ROWS sqlite_cfg)) =
                Inr r) \<and>
          [JsonContent \<lparr>rows = masked_sample_rows, rowsReturned = 3\<rparr>] = [JsonContent q] \<and>
          rows q = maskRows (or_empty r) \<and>
          rowsReturned q = length (rows q) \<and>
          length (rows q) = length (or_empty r)) \<and>
   length (maskRows sample_rows) = 3 \<and>
   list_all own_properties sample_rows \<and>
   map fst (maskRows sample_rows ! 0) = [''id'', ''email''] \<and>
   map fst (maskRows sample_rows ! 1) = [''id'', ''phone''] \<and>
   map fst (maskRows sample_rows ! 2) = [''id'', ''notes'', ''city'']"
proof -
  have run: "sql_query collab_three_rows sqlite_cfg ''SELECT * FROM safe_users_v'' =
     ([Astify ''SELECT * FROM safe_users_v'',
       TableList ''SELECT * FROM safe_users_v'',
       SqliteOpen,
       SqliteAll ''SELECT * FROM (SELECT * FROM safe_users_v) AS safe_sub LIMIT 200'',
       SqliteClose],
      Inr [JsonContent \<lparr>rows = masked_sample_rows, rowsReturned = 3\<rparr>])"
    by code_simp
  have idx: "array_index ''id'' = None" "array_index ''email'' = None"
    "array_index ''phone'' = None" "array_index ''notes'' = None" "array_index ''city'' = None"
    by (simp_all add: array_index_def is_digit_def code_def)
  have own: "list_all own_properties sample_rows"
    by (simp add: own_properties_def sample_rows_def sample_row_def key_before_def idx)
  note shape = query_result_shape [of collab_three_rows sqlite_cfg
      "''SELECT * FROM safe_users_v''"
      "[JsonContent \<lparr>rows = masked_sample_rows, rowsReturned = 3\<rparr>]" sample_rows]
  have ok: "snd (sql_query collab_three_rows sqlite_cfg ''SELECT * FROM safe_users_v'') =
      Inr [JsonContent \<lparr>rows = masked_sample_rows, rowsReturned = 3\<rparr>]"
    by (simp only: run snd_conv)
  have answer:
    "\<exists>r q. (DB_TYPE sqlite_cfg = ''sqlite'' \<and>
              sqlite_all collab_three_rows
                (wrapWithLimit (trim ''SELECT * FROM safe_users_v'') (MAX_ROWS sqlite_cfg)) =
                Inr r \<or>
            DB_TYPE sqlite_cfg = ''postgres'' \<and>
              pg_query collab_three_rows
                (wrapWithLimit (trim ''SELECT * FROM safe_users_v'') (MAX_ROWS sqlite_cfg)) =
                Inr r) \<and>
          [JsonContent \<lparr>rows = masked_sample_rows, rowsReturned = 3\<rparr>] = [JsonContent q] \<and>
          rows q = maskRows (or_empty r) \<and>
          rowsReturned q = length (rows q) \<and>
          length (rows q) = length (or_empty r)"
    by (rule mp [OF conjunct1 [OF shape] ok])
  have three: "length sample_rows = 3"
    by (simp add: sample_rows_def)
  have "length (maskRows sample_rows) = length sample_rows"
    by (rule conjunct1 [OF conjunct2 [OF shape]])
  with three have len: "length (maskRows sample_rows) = 3"
    by simp
  have rows_ok: "\<forall>i < length sample_rows.
      maskRows sample_rows ! i = maskRow (sample_rows ! i) \<and>
      (own_properties (sample_rows ! i) \<longrightarrow>
         map fst (maskRows sample_rows ! i) = map fst (sample_rows ! i) \<and>
         map snd (maskRows sample_rows ! i) = map (\<lambda>(k, v). maskValue k v) (sample_rows ! i))"
    by (rule conjunct2 [OF conjunct2 [OF shape]])
  have keys: "map fst (maskRows sample_rows ! i) = map fst (sample_rows ! i)"
    if "i < 3" for i
  proof -
    from that three have i: "i < length sample_rows"
      by simp
    with own have "own_properties (sample_rows ! i)"
      by (simp add: list_all_length)
    with rows_ok i show ?thesis
      by blast
  qed
  have k0: "map fst (maskRows sample_rows ! 0) = [''id'', ''email'']"
    using keys [of 0] by (simp add: sample_rows_def sample_row_def)
  have k1: "map fst (maskRows sample_rows ! 1) = [''id'', ''phone'']"
    using keys [of 1] by (simp add: sample_rows_def)
  have k2: "map fst (maskRows sample_rows ! 2) = [''id'', ''notes'', ''city'']"
    using keys [of 2] by (simp add: sample_rows_def)
  show ?thesis
    by (intro conjI run answer len own k0 k1 k2)
qed

section \<open>Properties of the execution step\<close>

text \<open>On the PostgreSQL path the client that has connected is ended on both exits of the
  callback.\<close>

lemma withPgClient_releases:
  "pg_connect env = None \<Longrightarrow> PgEnd \<in> set (fst (withPgClient env fn))"
  by (simp add: withPgClient_def io_bind_def io_finally_def io_call_def of_failure_def
      split: prod.splits sum.splits option.splits)

text \<open>On the SQLite path the database is closed when \<^verbatim>\<open>db.all\<close> delivers rows, and is left
  open when it reports an error, whatever the statement and the error are.\<close>

lemma sqlite_error_never_closes:
  assumes "DB_TYPE cfg = ''sqlite''"
    and "snd (assertSelectOnly env cfg (trim input)) = Inr ()"
    and "snd (assertWhitelisted env cfg (trim input)) = Inr ()"
    and "sqlite_all env (wrapWithLimit (trim input) (MAX_ROWS cfg)) = Inl e"
  shows "sql_query env cfg input =
           ([Astify (trim input), TableList (trim input), SqliteOpen,
             SqliteAll (wrapWithLimit (trim input) (MAX_ROWS cfg))], Inl e)"
proof -
  from assms(2) have a: "assertSelectOnly env cfg (trim input) = ([Astify (trim input)], Inr ())"
    using assertSelectOnly_calls [of env cfg "trim input"]
    by (cases "assertSelectOnly env cfg (trim input)") simp
  from assms(3) have b: "assertWhitelisted env cfg (trim input) = ([TableList (trim input)], Inr ())"
    using assertWhitelisted_calls [of env cfg "trim input"]
    by (cases "assertWhitelisted env cfg (trim input)") simp
  show ?thesis
    using assms(1,4) by (simp add: sql_query_def a b io_bind_def io_call_def Let_def)
qed

lemma sqlite_success_closes:
  assumes "DB_TYPE cfg = ''sqlite''"
    and "snd (assertSelectOnly env cfg (trim input)) = Inr ()"
    and "snd (assertWhitelisted env cfg (trim input)) = Inr ()"
    and "sqlite_all env (wrapWithLimit (trim input) (MAX_ROWS cfg)) = Inr r"
  shows "fst (sql_query env cfg input) =
           [Astify (trim input), TableList (trim input), SqliteOpen,
            SqliteAll (wrapWithLimit (trim input) (MAX_ROWS cfg)), SqliteClose]"
proof -
  from assms(2) have a: "assertSelectOnly env cfg (trim input) = ([Astify (trim input)], Inr ())"
    using assertSelectOnly_calls [of env cfg "trim input"]
    by (cases "assertSelectOnly env cfg (trim input)") simp
  from assms(3) have b: "assertWhitelisted env cfg (trim input) = ([TableList (trim input)], Inr ())"
    using assertWhitelisted_calls [of env cfg "trim input"]
    by (cases "assertWhitelisted env cfg (trim input)") simp
  show ?thesis
    using assms(1,4)
    by (simp add: sql_query_def a b io_bind_def io_call_def io_return_def Let_def)
qed

text \<open>
  Claim C8. The connection acquired for the execution step is to be released on every
  exit path, on both backends. On the SQLite path, when \<^verbatim>\<open>db.all\<close> reports an error, the
  handler has opened the database and throws before it reaches \<^verbatim>\<open>db.close()\<close>: the calls it
  has made end with \<^verbatim>\<open>db.all\<close>, and no close follows.
\<close>

theorem sqlite_error_skips_close:
  "sql_query collab_db_error sqlite_cfg ''SELECT id, email FROM safe_users_v'' =
     ([Astify ''SELECT id, email FROM safe_users_v'',
       TableList ''SELECT id, email FROM safe_users_v'',
       SqliteOpen,
       SqliteAll ''SELECT * FROM (SELECT id, email FROM safe_users_v) AS safe_sub LIMIT 200''],
      Inl (JsError ''SQLITE_ERROR: no such table: safe_users_v'')) \<and>
   sql_query collab_db_error postgres_cfg ''SELECT id, email FROM safe_users_v'' =
     ([Astify ''SELECT id, email FROM safe_users_v'',
       TableList ''SELECT id, email FROM safe_users_v'',
       PgConnect,
       PgQuery ''SELECT * FROM (SELECT id, email FROM safe_users_v) AS safe_sub LIMIT 200'',
       PgEnd],
      Inl (JsError ''relation safe_users_v does not exist''))"
  by code_simp

section \<open>Properties of the safe explain\<close>

text \<open>The rendering of a node without estimates: its line, indented by two spaces for
  each level of depth, and under it the renderings of its children, one level deeper.\<close>

lemma pad_spaces: "pad depth = replicate (2 * depth) (CHR '' '')"
  by (induction depth) (simp_all add: pad_def)

lemma formatTree_leaf: "formatTree shw (PlanNode opn None None None) depth = pad depth @ ''- '' @ opn"
  by simp

lemma formatTree_children:
  "formatTree shw (PlanNode opn None None (Some cs)) depth =
     join newline ((pad depth @ ''- '' @ opn) # map (\<lambda>c. formatTree shw c (Suc depth)) cs)"
  by simp

lemma formatTree_generic: "formatTree shw genericTree 0 = ''- Select\<newline>  - Scan''"
  by (simp add: genericTree_def pad_def newline_def)

text \<open>
  What \<^verbatim>\<open>sql.explain_safe\<close> returns for a whitelisted \<^verbatim>\<open>SELECT\<close>: two text items, the
  notice and the rendering. The tree is not among them.
\<close>

theorem explain_safe_returns_text_only:
  "snd (sql_explain_safe collab_ok sqlite_cfg ''SELECT id, email FROM safe_users_v'') =
     Inr [TextContent ''This is a redacted, generic operator outline (beginner mode):'',
          TextContent ''- Select\<newline>  - Scan'']"
  by code_simp

text \<open>
  Claim C9, as amended. For every input that passes \<^verbatim>\<open>assertSelectOnly\<close> and
  \<^verbatim>\<open>assertWhitelisted\<close>, \<^verbatim>\<open>sql.explain_safe\<close> builds the fixed tree of a \<open>Select\<close> node with
  one \<open>Scan\<close> child and no estimates, and returns two text items: a notice that this is
  a generic outline, and the rendering of the tree, which has two lines, \<open>- Select\<close> and,
  indented by two spaces, \<open>- Scan\<close>. The tree itself is not part of the answer.
\<close>

theorem explain_safe_generic:
  assumes "snd (assertSelectOnly env cfg (trim input)) = Inr ()"
    and "snd (assertWhitelisted env cfg (trim input)) = Inr ()"
  shows "sql_explain_safe env cfg input =
           ([Astify (trim input), TableList (trim input)],
            Inr [TextContent ''This is a redacted, generic operator outline (beginner mode):'',
                 TextContent (formatTree show_nat genericTree 0)]) \<and>
         genericTree = PlanNode ''Select'' None None (Some [PlanNode ''Scan'' None None None]) \<and>
         formatTree show_nat genericTree 0 = join newline [''- Select'', pad 1 @ ''- Scan''] \<and>
         formatTree show_nat genericTree 0 = ''- Select\<newline>  - Scan''"
proof -
  from assms(1) have a: "assertSelectOnly env cfg (trim input) = ([Astify (trim input)], Inr ())"
    using assertSelectOnly_calls [of env cfg "trim input"]
    by (cases "assertSelectOnly env cfg (trim input)") simp
  from assms(2) have b: "assertWhitelisted env cfg (trim input) = ([TableList (trim input)], Inr ())"
    using assertWhitelisted_calls [of env cfg "trim input"]
    by (cases "assertWhitelisted env cfg (trim input)") simp
  have "sql_explain_safe env cfg input =
      ([Astify (trim input), TableList (trim input)],
       Inr [TextContent ''This is a redacted, generic operator outline (beginner mode):'',
            TextContent (formatTree show_nat genericTree 0)])"
    by (simp add: sql_explain_safe_def a b io_bind_def io_return_def Let_def)
  moreover have "formatTree show_nat genericTree 0 = join newline [''- Select'', pad 1 @ ''- Scan'']"
    by (simp add: genericTree_def pad_def newline_def)
  ultimately show ?thesis
    by (simp add: formatTree_generic) (simp add: genericTree_def)
qed

theorem explain_safe_generic_witness:
  "snd (assertSelectOnly collab_ok postgres_cfg (trim '' SELECT id, email FROM safe_users_v '')) =
     Inr () \<and>
   snd (assertWhitelisted collab_ok postgres_cfg (trim '' SELECT id, email FROM safe_users_v '')) =
     Inr () \<and>
   sql_explain_safe collab_ok postgres_cfg '' SELECT id, email FROM safe_users_v '' =
     ([Astify (trim '' SELECT id, email FROM safe_users_v ''),
       TableList (trim '' SELECT id, email FROM safe_users_v '')],
      Inr [TextContent ''This is a redacted, generic operator outline (beginner mode):'',
           TextContent (formatTree show_nat genericTree 0)]) \<and>
   formatTree show_nat genericTree 0 = ''- Select\<newline>  - Scan''"
proof -
  have a: "snd (assertSelectOnly collab_ok postgres_cfg
      (trim '' SELECT id, email FROM safe_users_v '')) = Inr ()"
    by code_simp
  have b: "snd (assertWhitelisted collab_ok postgres_cfg
      (trim '' SELECT id, email FROM safe_users_v '')) = Inr ()"
    by code_simp
  show ?thesis
    using a b explain_safe_generic [OF a b] by blast
qed

end
